theory Spec2Isabelle
  imports Main "HOL-Library.AList"
begin

section \<open>The reflection facility used by the container\<close>

text \<open>
  The container of \<^verbatim>\<open>container.go\<close> keys everything by \<^verbatim>\<open>reflect.Type\<close>.
  A type descriptor is modelled structurally. The kinds are kept apart as far as the
  container and the reflection calls it makes tell them apart: interfaces, pointers,
  structs, the other kinds whose values can be nil (channel, function, map, slice,
  unsafe pointer: \<open>TRef\<close>) and the remaining ones (booleans, numbers, strings, arrays:
  \<open>TBasic\<close>).
\<close>

datatype rtype
  = TStruct string
  | TInterface string
  | TPtr rtype
  | TRef string
  | TBasic string

datatype kind = KStruct | KInterface | KPointer | KRef | KBasic

fun Kind :: "rtype \<Rightarrow> kind" where
  "Kind (TStruct n) = KStruct"
| "Kind (TInterface n) = KInterface"
| "Kind (TPtr t) = KPointer"
| "Kind (TRef n) = KRef"
| "Kind (TBasic n) = KBasic"

text \<open>\<^verbatim>\<open>reflect.PointerTo(t)\<close>.\<close>

definition PointerTo :: "rtype \<Rightarrow> rtype" where
  "PointerTo t = TPtr t"

text \<open>\<^verbatim>\<open>reflect.TypeOf((*error)(nil)).Elem()\<close>: the predeclared interface type \<^verbatim>\<open>error\<close>.\<close>

definition errorType :: rtype where
  "errorType = TInterface ''error''"

datatype panic = NonInterfaceTypePassedToImplements | IsNilOfValueKind | IndexOutOfRange

text \<open>
  A call into the container ends in one of three ways: it returns normally, it returns
  a non-nil \<^verbatim>\<open>error\<close>, or it panics. A call into the reflection library returns or
  panics (\<open>Inl\<close>).
\<close>

datatype ('e, 'a) result = Ok 'a | Err 'e | Panic panic

text \<open>
  \<^verbatim>\<open>t.Implements(u)\<close>. Whether the method set of \<open>t\<close> covers the interface \<open>u\<close> is a
  fact of the program being wired, not of the container, so it is the parameter
  \<open>sat\<close> throughout. What belongs to the reflection library itself is kept: the call
  panics (\<^verbatim>\<open>reflect: non-interface type passed to Type.Implements\<close>) when \<open>u\<close> is not
  of interface kind.
\<close>

definition Implements :: "(rtype \<Rightarrow> rtype \<Rightarrow> bool) \<Rightarrow> rtype \<Rightarrow> rtype \<Rightarrow> panic + bool" where
  "Implements sat t u =
     (if Kind u \<noteq> KInterface then Inl NonInterfaceTypePassedToImplements else Inr (sat t u))"

text \<open>
  \<^verbatim>\<open>t.AssignableTo(u)\<close>, for the two cases that can arise for a pointer-typed
  instance: identical types, and an interface type that \<open>t\<close> implements.
\<close>

definition AssignableTo :: "(rtype \<Rightarrow> rtype \<Rightarrow> bool) \<Rightarrow> rtype \<Rightarrow> rtype \<Rightarrow> bool" where
  "AssignableTo sat t u = (t = u \<or> (Kind u = KInterface \<and> sat t u))"

text \<open>
  A \<^verbatim>\<open>reflect.Value\<close>: its static type and what it holds (\<open>None\<close> is nil). The
  instances of the container are such values too: \<^verbatim>\<open>results[0].Interface()\<close> followed
  by \<^verbatim>\<open>reflect.ValueOf\<close> gives the pointer value back.
\<close>

datatype 'v Value = Value (vType: rtype) (vInterface: "'v option")

text \<open>
  \<^verbatim>\<open>v.IsNil()\<close> panics (\<^verbatim>\<open>reflect: call of reflect.Value.IsNil on struct Value\<close>) when
  the value is of a kind that has no nil.
\<close>

definition IsNil :: "'v Value \<Rightarrow> panic + bool" where
  "IsNil x =
     (if Kind (vType x) = KStruct \<or> Kind (vType x) = KBasic then Inl IsNilOfValueKind
      else Inr (vInterface x = None))"

text \<open>
  The trace of producer invocations: which type was being built, through which
  constructor record (its position in \<^verbatim>\<open>c.constructors\<close>, which stands for the
  \<^verbatim>\<open>*constructorInfo\<close> pointer), with which arguments, and what the call returned.
  The trace is the only part of the world outside the container that is modelled.
\<close>

datatype 'v call = Call (callTyp: rtype) (callCtor: nat) (callArgs: "'v Value list")
  (callResults: "'v Value list")

text \<open>
  A Go function value as reflection sees it: its name, \<^verbatim>\<open>In(i)\<close>, \<^verbatim>\<open>Out(i)\<close>, and its
  behaviour. A producer is arbitrary user code: what its \<open>i\<close>-th output holds may depend
  on its arguments and on everything that ran before (the trace), so a producer can
  return a fresh pointer at every call. Producers are assumed to return.
\<close>

record 'v gofunc =
  fnName :: string
  fnIn :: "rtype list"
  fnOut :: "rtype list"
  fnBody :: "'v call list \<Rightarrow> 'v Value list \<Rightarrow> nat \<Rightarrow> 'v option"

text \<open>\<^verbatim>\<open>constructorValue.Call(args)\<close>: one value per declared output, of the declared type.\<close>

definition CallFn :: "'v gofunc \<Rightarrow> 'v call list \<Rightarrow> 'v Value list \<Rightarrow> 'v Value list" where
  "CallFn f w as = map (\<lambda>(i, t). Value t (fnBody f w as i)) (enumerate 0 (fnOut f))"

text \<open>What \<^verbatim>\<open>Provide\<close> may be handed as \<^verbatim>\<open>constructor any\<close>.\<close>

datatype 'v goany = NotAFunc | AFunc "'v gofunc"

text \<open>What \<^verbatim>\<open>Resolve\<close> may be handed as \<^verbatim>\<open>target any\<close>; \<open>TargetPtr t\<close> is a non-nil \<^verbatim>\<open>*t\<close>.\<close>

datatype target = TargetNotPointer | TargetNilPointer | TargetPtr rtype

section \<open>Go maps\<close>

text \<open>
  A Go map is an association list with distinct keys. Reading a missing key gives
  \<open>None\<close> (the caller then takes the zero value, as Go does). A \<^verbatim>\<open>range\<close> over a map
  visits the keys in an order the runtime chooses: every such loop takes the order
  from a function of the \<open>schedule\<close>, about which nothing is known but that it
  permutes the keys.
\<close>

type_synonym ('k, 'a) gomap = "('k \<times> 'a) list"

definition lookup :: "('k, 'a) gomap \<Rightarrow> 'k \<Rightarrow> 'a option" where
  "lookup m k = map_of m k"

definition store :: "'k \<Rightarrow> 'a \<Rightarrow> ('k, 'a) gomap \<Rightarrow> ('k, 'a) gomap" where
  "store k v m = AList.update k v m"

definition keys :: "('k, 'a) gomap \<Rightarrow> 'k list" where
  "keys m = map fst m"

record schedule =
  ordCtors :: "rtype list \<Rightarrow> rtype list"
  ordRequired :: "rtype list \<Rightarrow> rtype list"
  ordDependencies :: "rtype list \<Rightarrow> rtype list"
  ordInDegree :: "rtype list \<Rightarrow> rtype list"

definition permutes :: "(rtype list \<Rightarrow> rtype list) \<Rightarrow> bool" where
  "permutes f = (\<forall>xs. distinct xs \<longrightarrow> distinct (f xs) \<and> set (f xs) = set xs)"

definition valid_schedule :: "schedule \<Rightarrow> bool" where
  "valid_schedule s =
     (permutes (ordCtors s) \<and> permutes (ordRequired s) \<and> permutes (ordDependencies s)
      \<and> permutes (ordInDegree s))"

section \<open>The container\<close>

record fnSignature =
  args :: "rtype list"
  returnType :: rtype

record 'v constructorInfo =
  fn :: "'v gofunc"
  name :: string
  signature :: fnSignature
  dependNeedsResolution :: "bool list"

record dependencyGraph =
  dependencies :: "(rtype, rtype list) gomap"
  dependents :: "(rtype, rtype list) gomap"

text \<open>
  \<^verbatim>\<open>c.constructors\<close> and \<^verbatim>\<open>c.typesCtors\<close> hold pointers to the same
  \<^verbatim>\<open>constructorInfo\<close> objects, and \<^verbatim>\<open>resolveInterfaces\<close> rewrites them in place. The
  objects live in the list \<open>constructors\<close>; \<open>typesCtors\<close> maps a type to the position of
  its object there. The mutex and the debug flag (which only prints) are left out.
\<close>

record 'v Container =
  constructors :: "'v constructorInfo list"
  instances :: "(rtype, 'v Value) gomap"
  typeRegistry :: "rtype list"
  graph :: dependencyGraph
  typesCtors :: "(rtype, nat) gomap"

datatype 'v error
  = ConstructorMustBeFunction
  | MustReturnPtrOrPtrAndError
  | MustReturnPointerFirst
  | SecondReturnMustBeError
  | FailedToAnalyze "'v error"
  | TargetMustBeNonNilPointer
  | NoImplementationFound rtype
  | MultipleImplementationsFound rtype "rtype list"
  | InterfaceResolutionFailed "'v error"
  | MissingConstructor rtype
  | CircularDependency nat nat
  | DependencyResolutionFailed "'v error"
  | NoConstructorRegistered rtype
  | DependencyNotResolved rtype rtype
  | ProducerError "'v Value"
  | FailedToResolve rtype "'v error"
  | NotAssignable rtype rtype
  | NoInstanceFound rtype

definition NewContainer :: "'v Container" where
  "NewContainer =
     \<lparr>constructors = [], instances = [], typeRegistry = [],
      graph = \<lparr>dependencies = [], dependents = []\<rparr>, typesCtors = []\<rparr>"

subsection \<open>Registration\<close>

definition analyzeFunction ::
  "(rtype \<Rightarrow> rtype \<Rightarrow> bool) \<Rightarrow> 'v gofunc \<Rightarrow> ('v error, fnSignature) result" where
  "analyzeFunction sat f =
     (let as = fnIn f; numOut = length (fnOut f) in
      if numOut = 0 \<or> numOut > 2 then Err MustReturnPtrOrPtrAndError
      else let firstOut = fnOut f ! 0 in
        if Kind firstOut \<noteq> KPointer then Err MustReturnPointerFirst
        else if numOut = 2 then
          (case Implements sat (fnOut f ! 1) errorType of
             Inl p \<Rightarrow> Panic p
           | Inr b \<Rightarrow>
               if \<not> b then Err SecondReturnMustBeError
               else Ok \<lparr>args = as, returnType = firstOut\<rparr>)
        else Ok \<lparr>args = as, returnType = firstOut\<rparr>)"

definition Provide ::
  "(rtype \<Rightarrow> rtype \<Rightarrow> bool) \<Rightarrow> 'v goany \<Rightarrow> 'v Container \<Rightarrow> ('v error, unit) result \<times> 'v Container" where
  "Provide sat constructor c =
     (case constructor of
        NotAFunc \<Rightarrow> (Err ConstructorMustBeFunction, c)
      | AFunc f \<Rightarrow>
          (case analyzeFunction sat f of
             Panic p \<Rightarrow> (Panic p, c)
           | Err e \<Rightarrow> (Err (FailedToAnalyze e), c)
           | Ok sg \<Rightarrow>
               let cinfo = \<lparr>fn = f, name = fnName f, signature = sg,
                            dependNeedsResolution = map (\<lambda>arg. Kind arg = KInterface) (args sg)\<rparr>
               in (Ok (),
                   c\<lparr>constructors := constructors c @ [cinfo],
                     typesCtors := store (returnType sg) (length (constructors c)) (typesCtors c),
                     typeRegistry := typeRegistry c @ [returnType sg]\<rparr>)))"

subsection \<open>Capability (interface) resolution\<close>

text \<open>
  The loop of \<^verbatim>\<open>findImplementations\<close> over \<^verbatim>\<open>c.typeRegistry\<close>, with the slice
  \<^verbatim>\<open>implementations\<close> it appends to.
\<close>

fun findImplLoop ::
  "(rtype \<Rightarrow> rtype \<Rightarrow> bool) \<Rightarrow> rtype \<Rightarrow> rtype list \<Rightarrow> rtype list \<Rightarrow> panic + rtype list" where
  "findImplLoop sat interfaceType [] implementations = Inr implementations"
| "findImplLoop sat interfaceType (typ # rest) implementations =
     (if Kind typ = KInterface then findImplLoop sat interfaceType rest implementations
      else case Implements sat typ interfaceType of
        Inl p \<Rightarrow> Inl p
      | Inr direct \<Rightarrow>
          if direct then findImplLoop sat interfaceType rest (implementations @ [typ])
          else (case Implements sat (PointerTo typ) interfaceType of
            Inl p \<Rightarrow> Inl p
          | Inr viaPointer \<Rightarrow>
              if viaPointer then findImplLoop sat interfaceType rest (implementations @ [typ])
              else findImplLoop sat interfaceType rest implementations))"

definition findImplementations ::
  "(rtype \<Rightarrow> rtype \<Rightarrow> bool) \<Rightarrow> rtype list \<Rightarrow> rtype \<Rightarrow> panic + rtype list" where
  "findImplementations sat registry interfaceType = findImplLoop sat interfaceType registry []"

text \<open>
  The inner loop of \<^verbatim>\<open>resolveInterfaces\<close>, over the flags
  \<^verbatim>\<open>ctorInfo.dependNeedsResolution\<close> of one constructor; it rewrites
  \<^verbatim>\<open>signature.args[i]\<close> in place, so the slots rewritten before a failure stay
  rewritten.
\<close>

fun resolveArgs ::
  "(rtype \<Rightarrow> rtype \<Rightarrow> bool) \<Rightarrow> rtype list \<Rightarrow> (nat \<times> bool) list \<Rightarrow> rtype list
   \<Rightarrow> ('v error, unit) result \<times> rtype list" where
  "resolveArgs sat registry [] as = (Ok (), as)"
| "resolveArgs sat registry ((i, needsResolution) # rest) as =
     (if \<not> needsResolution then resolveArgs sat registry rest as
      else if length as \<le> i then (Panic IndexOutOfRange, as)
      else let interfaceType = as ! i in
        case findImplementations sat registry interfaceType of
          Inl p \<Rightarrow> (Panic p, as)
        | Inr implementations \<Rightarrow>
            if length implementations = 0 then (Err (NoImplementationFound interfaceType), as)
            else if length implementations > 1
              then (Err (MultipleImplementationsFound interfaceType implementations), as)
            else resolveArgs sat registry rest (as[i := implementations ! 0]))"

text \<open>The outer loop of \<^verbatim>\<open>resolveInterfaces\<close>, over \<^verbatim>\<open>c.constructors\<close>.\<close>

fun resolveCtors ::
  "(rtype \<Rightarrow> rtype \<Rightarrow> bool) \<Rightarrow> rtype list \<Rightarrow> 'v constructorInfo list
   \<Rightarrow> ('v error, unit) result \<times> 'v constructorInfo list" where
  "resolveCtors sat registry [] = (Ok (), [])"
| "resolveCtors sat registry (ctorInfo # rest) =
     (case resolveArgs sat registry (enumerate 0 (dependNeedsResolution ctorInfo))
             (args (signature ctorInfo)) of
        (Ok u, as) \<Rightarrow>
          (case resolveCtors sat registry rest of
             (r, rest') \<Rightarrow> (r, ctorInfo\<lparr>signature := (signature ctorInfo)\<lparr>args := as\<rparr>\<rparr> # rest'))
      | (r, as) \<Rightarrow> (r, ctorInfo\<lparr>signature := (signature ctorInfo)\<lparr>args := as\<rparr>\<rparr> # rest))"

definition resolveInterfaces ::
  "(rtype \<Rightarrow> rtype \<Rightarrow> bool) \<Rightarrow> 'v Container \<Rightarrow> ('v error, unit) result \<times> 'v Container" where
  "resolveInterfaces sat c =
     (case resolveCtors sat (typeRegistry c) (constructors c) of
        (r, cs) \<Rightarrow> (r, c\<lparr>constructors := cs\<rparr>))"

subsection \<open>The dependency graph\<close>

text \<open>Reading a slice from a map: a missing key gives the nil slice.\<close>

definition lookupList :: "('k, 'a list) gomap \<Rightarrow> 'k \<Rightarrow> 'a list" where
  "lookupList m k = (case lookup m k of None \<Rightarrow> [] | Some xs \<Rightarrow> xs)"

definition addDependents ::
  "rtype \<Rightarrow> rtype list \<Rightarrow> (rtype, rtype list) gomap \<Rightarrow> (rtype, rtype list) gomap" where
  "addDependents typ deps m = fold (\<lambda>dep m. store dep (lookupList m dep @ [typ]) m) deps m"

definition rebuildGraph :: "schedule \<Rightarrow> 'v Container \<Rightarrow> 'v Container" where
  "rebuildGraph sch c =
     c\<lparr>graph :=
         fold (\<lambda>typ g.
                 case lookup (typesCtors c) typ of
                   None \<Rightarrow> g
                 | Some p \<Rightarrow>
                     let as = args (signature (constructors c ! p)) in
                     \<lparr>dependencies = store typ as (dependencies g),
                      dependents = addDependents typ as (dependents g)\<rparr>)
              (ordCtors sch (keys (typesCtors c)))
              \<lparr>dependencies = [], dependents = []\<rparr>\<rparr>"

text \<open>The set \<^verbatim>\<open>requiredTypes\<close> of \<^verbatim>\<open>validateDependencies\<close>, and its second loop.\<close>

definition requiredTypes :: "'v Container \<Rightarrow> (rtype, bool) gomap" where
  "requiredTypes c =
     fold (\<lambda>ctor m. fold (\<lambda>depType m. store depType True m) (args (signature ctor)) m)
       (constructors c) []"

fun checkRequired :: "(rtype, nat) gomap \<Rightarrow> rtype list \<Rightarrow> ('v error, unit) result" where
  "checkRequired tc [] = Ok ()"
| "checkRequired tc (depType # rest) =
     (case lookup tc depType of
        None \<Rightarrow> Err (MissingConstructor depType)
      | Some p \<Rightarrow> checkRequired tc rest)"

definition validateDependencies :: "schedule \<Rightarrow> 'v Container \<Rightarrow> ('v error, unit) result" where
  "validateDependencies sch c =
     checkRequired (typesCtors c) (ordRequired sch (keys (requiredTypes c)))"

subsection \<open>Topological sorting\<close>

text \<open>Reading an \<^verbatim>\<open>int\<close> from a map: a missing key gives 0.\<close>

definition degree :: "(rtype, int) gomap \<Rightarrow> rtype \<Rightarrow> int" where
  "degree m k = (case lookup m k of None \<Rightarrow> 0 | Some d \<Rightarrow> d)"

text \<open>
  The body of the loop over \<^verbatim>\<open>c.graph.dependents[current]\<close>: decrement, and enqueue
  at zero.
\<close>

definition reduceInDegree ::
  "rtype \<Rightarrow> (rtype, int) gomap \<times> rtype list \<Rightarrow> (rtype, int) gomap \<times> rtype list" where
  "reduceInDegree dependent s =
     (case s of (inDegree, queue) \<Rightarrow>
        let inDegree' = store dependent (degree inDegree dependent - 1) inDegree in
        (inDegree', if degree inDegree' dependent = 0 then queue @ [dependent] else queue))"

text \<open>
  The loop \<^verbatim>\<open>for len(queue) > 0\<close> of \<^verbatim>\<open>topologicalSort\<close>. It terminates because
  every round removes one entry of the queue, and a type enters the queue only when its
  positive in-degree drops to zero.
\<close>

definition kahnMeasure :: "(rtype, int) gomap \<times> rtype list \<Rightarrow> nat" where
  "kahnMeasure s = (case s of (inDegree, queue) \<Rightarrow> sum_list (map (\<lambda>kv. nat (snd kv)) inDegree) + length queue)"

lemma degree_store_same: "degree (store k x m) k = x"
  by (simp add: degree_def lookup_def store_def update_conv')

lemma sum_update:
  "sum_list (map (\<lambda>kv. nat (snd kv)) (AList.update k x m)) + nat (degree m k)
     = sum_list (map (\<lambda>kv. nat (snd kv)) m) + nat x"
  by (induction m) (auto simp: degree_def lookup_def)

lemma reduceInDegree_measure: "kahnMeasure (reduceInDegree d s) \<le> kahnMeasure s"
proof (cases s)
  case (Pair m q)
  have "sum_list (map (\<lambda>kv. nat (snd kv)) (store d (degree m d - 1) m)) + nat (degree m d)
     = sum_list (map (\<lambda>kv. nat (snd kv)) m) + nat (degree m d - 1)"
    unfolding store_def by (rule sum_update)
  then show ?thesis
    using Pair by (auto simp: kahnMeasure_def reduceInDegree_def Let_def degree_store_same)
qed

lemma fold_reduceInDegree_measure: "kahnMeasure (fold reduceInDegree ds s) \<le> kahnMeasure s"
proof (induction ds arbitrary: s)
  case Nil
  show ?case by simp
next
  case (Cons d ds)
  have "kahnMeasure (fold reduceInDegree ds (reduceInDegree d s)) \<le> kahnMeasure (reduceInDegree d s)"
    by (rule Cons.IH)
  also have "\<dots> \<le> kahnMeasure s" by (rule reduceInDegree_measure)
  finally show ?case by simp
qed

function kahnLoop ::
  "(rtype, rtype list) gomap \<Rightarrow> (rtype, int) gomap \<Rightarrow> rtype list \<Rightarrow> rtype list \<Rightarrow> rtype list" where
  "kahnLoop dps inDegree [] result = result"
| "kahnLoop dps inDegree (current # queue) result =
     (case fold reduceInDegree (lookupList dps current) (inDegree, queue) of
        (inDegree', queue') \<Rightarrow> kahnLoop dps inDegree' queue' (result @ [current]))"
  by pat_completeness auto
termination
  apply (relation "measure (\<lambda>(dps, inDegree, queue, result). kahnMeasure (inDegree, queue))")
   apply simp
  subgoal premises prems for dps inDegree current queue result xa y
    using fold_reduceInDegree_measure [of "lookupList dps current" "(inDegree, queue)"]
    unfolding prems [symmetric] by (simp add: kahnMeasure_def)
  done


definition topologicalSort :: "schedule \<Rightarrow> 'v Container \<Rightarrow> ('v error, rtype list) result" where
  "topologicalSort sch c =
     (let inDegree0 = fold (\<lambda>typ m. store typ 0 m) (typeRegistry c) [];
          inDegree = fold (\<lambda>typ m. store typ (int (length (lookupList (dependencies (graph c)) typ))) m)
                       (ordDependencies sch (keys (dependencies (graph c)))) inDegree0;
          queue = filter (\<lambda>typ. degree inDegree typ = 0) (ordInDegree sch (keys inDegree));
          result = kahnLoop (dependents (graph c)) inDegree queue [];
          typesWithConstructors = length (typesCtors c)
      in if length result \<noteq> typesWithConstructors
         then Err (CircularDependency (length result) typesWithConstructors)
         else Ok result)"

subsection \<open>Instantiation\<close>

text \<open>The argument loop of \<^verbatim>\<open>resolveInstance\<close>, over \<^verbatim>\<open>i < constructorType.NumIn()\<close>.\<close>

fun prepareArgs ::
  "(rtype, 'v Value) gomap \<Rightarrow> rtype list \<Rightarrow> rtype \<Rightarrow> nat list \<Rightarrow> ('v error, 'v Value list) result" where
  "prepareArgs inst sargs typ [] = Ok []"
| "prepareArgs inst sargs typ (i # rest) =
     (if length sargs \<le> i then Panic IndexOutOfRange
      else let depType = sargs ! i in
        case lookup inst depType of
          None \<Rightarrow> Err (DependencyNotResolved depType typ)
        | Some depInstance \<Rightarrow>
            (case prepareArgs inst sargs typ rest of
               Ok as \<Rightarrow> Ok (depInstance # as)
             | Err e \<Rightarrow> Err e
             | Panic p \<Rightarrow> Panic p))"

text \<open>
  \<^verbatim>\<open>resolveInstance\<close>. The state is the container and the trace; the producer's call
  is recorded in the trace whatever it returns.
\<close>

definition resolveInstance ::
  "(rtype \<Rightarrow> rtype \<Rightarrow> bool) \<Rightarrow> rtype \<Rightarrow> 'v Container \<times> 'v call list
   \<Rightarrow> ('v error, unit) result \<times> 'v Container \<times> 'v call list" where
  "resolveInstance sat typ s =
     (case s of (c, w) \<Rightarrow>
        case lookup (typesCtors c) typ of
          None \<Rightarrow> (Err (NoConstructorRegistered typ), c, w)
        | Some p \<Rightarrow>
            let ctor = constructors c ! p in
            case prepareArgs (instances c) (args (signature ctor)) typ [0..<length (fnIn (fn ctor))] of
              Panic pn \<Rightarrow> (Panic pn, c, w)
            | Err e \<Rightarrow> (Err e, c, w)
            | Ok as \<Rightarrow>
                let results = CallFn (fn ctor) w as;
                    w' = w @ [Call typ p as results];
                    failed =
                      (if length results > 1 then
                         (let lastResult = last results in
                          case Implements sat (vType lastResult) errorType of
                            Inl pn \<Rightarrow> Panic pn
                          | Inr b \<Rightarrow>
                              if \<not> b then Ok ()
                              else (case IsNil lastResult of
                                      Inl pn \<Rightarrow> Panic pn
                                    | Inr isNil \<Rightarrow>
                                        if \<not> isNil then Err (ProducerError lastResult) else Ok ()))
                       else Ok ())
                in case failed of
                     Panic pn \<Rightarrow> (Panic pn, c, w')
                   | Err e \<Rightarrow> (Err e, c, w')
                   | Ok u \<Rightarrow>
                       if length results > 0
                       then (Ok (), c\<lparr>instances := store typ (results ! 0) (instances c)\<rparr>, w')
                       else (Ok (), c, w'))"

text \<open>Step 3 of \<^verbatim>\<open>Resolve\<close>: the loop over the sorted types.\<close>

fun resolveAll ::
  "(rtype \<Rightarrow> rtype \<Rightarrow> bool) \<Rightarrow> rtype list \<Rightarrow> 'v Container \<times> 'v call list
   \<Rightarrow> ('v error, unit) result \<times> 'v Container \<times> 'v call list" where
  "resolveAll sat [] s = (Ok (), s)"
| "resolveAll sat (typ # rest) s =
     (case resolveInstance sat typ s of
        (Ok u, s') \<Rightarrow> resolveAll sat rest s'
      | (Err e, s') \<Rightarrow> (Err (FailedToResolve typ e), s')
      | (Panic p, s') \<Rightarrow> (Panic p, s'))"

subsection \<open>Resolve\<close>

text \<open>
  On success the result is the instance written through the target pointer. The
  container and the trace are returned in every case: nothing is rolled back.
\<close>

definition Resolve ::
  "(rtype \<Rightarrow> rtype \<Rightarrow> bool) \<Rightarrow> schedule \<Rightarrow> target \<Rightarrow> 'v Container \<times> 'v call list
   \<Rightarrow> ('v error, 'v Value) result \<times> 'v Container \<times> 'v call list" where
  "Resolve sat sch tgt s =
     (case s of (c, w) \<Rightarrow>
        case tgt of
          TargetNotPointer \<Rightarrow> (Err TargetMustBeNonNilPointer, c, w)
        | TargetNilPointer \<Rightarrow> (Err TargetMustBeNonNilPointer, c, w)
        | TargetPtr targetType \<Rightarrow>
            (case resolveInterfaces sat c of
               (Panic p, c1) \<Rightarrow> (Panic p, c1, w)
             | (Err e, c1) \<Rightarrow> (Err (InterfaceResolutionFailed e), c1, w)
             | (Ok u, c1) \<Rightarrow>
                 let c2 = rebuildGraph sch c1 in
                 case validateDependencies sch c2 of
                   Panic p \<Rightarrow> (Panic p, c2, w)
                 | Err e \<Rightarrow> (Err e, c2, w)
                 | Ok u \<Rightarrow>
                     (case topologicalSort sch c2 of
                        Panic p \<Rightarrow> (Panic p, c2, w)
                      | Err e \<Rightarrow> (Err (DependencyResolutionFailed e), c2, w)
                      | Ok sortedTypes \<Rightarrow>
                          (case resolveAll sat sortedTypes (c2, w) of
                             (Panic p, c3, w3) \<Rightarrow> (Panic p, c3, w3)
                           | (Err e, c3, w3) \<Rightarrow> (Err e, c3, w3)
                           | (Ok u, c3, w3) \<Rightarrow>
                               (case lookup (instances c3) targetType of
                                  Some instance \<Rightarrow>
                                    if AssignableTo sat (vType instance) targetType
                                    then (Ok instance, c3, w3)
                                    else (Err (NotAssignable (vType instance) targetType), c3, w3)
                                | None \<Rightarrow> (Err (NoInstanceFound targetType), c3, w3))))))"

section \<open>Notions used to state the properties\<close>

text \<open>
  The recorded inputs of the constructor that \<^verbatim>\<open>c.typesCtors\<close> holds for a type, and
  the dependency relation they induce: a pair \<open>(d, t)\<close> says that the constructor of
  \<open>t\<close> takes a \<open>d\<close>.
\<close>

definition depsOf :: "'v Container \<Rightarrow> rtype \<Rightarrow> rtype list" where
  "depsOf c t =
     (case lookup (typesCtors c) t of
        None \<Rightarrow> []
      | Some p \<Rightarrow> args (signature (constructors c ! p)))"

definition dependsOn :: "'v Container \<Rightarrow> (rtype \<times> rtype) set" where
  "dependsOn c = {(d, t). d \<in> set (depsOf c t)}"

text \<open>
  The test \<^verbatim>\<open>resolveInstance\<close> makes on what a producer returned: the last of several
  results is of a type that implements \<^verbatim>\<open>error\<close> and is not nil. Where that type is of
  a kind without nil (a struct that implements \<^verbatim>\<open>error\<close>, which \<^verbatim>\<open>analyzeFunction\<close>
  accepts), the test itself panics. Either way the invocation is the last of the call.
\<close>

definition signalsFailure :: "(rtype \<Rightarrow> rtype \<Rightarrow> bool) \<Rightarrow> 'v Value list \<Rightarrow> bool" where
  "signalsFailure sat results =
     (length results > 1 \<and> sat (vType (last results)) errorType \<and> IsNil (last results) = Inr False)"

definition crashes :: "(rtype \<Rightarrow> rtype \<Rightarrow> bool) \<Rightarrow> 'v Value list \<Rightarrow> bool" where
  "crashes sat results =
     (length results > 1 \<and> sat (vType (last results)) errorType \<and>
      IsNil (last results) = Inl IsNilOfValueKind)"

definition stops :: "(rtype \<Rightarrow> rtype \<Rightarrow> bool) \<Rightarrow> 'v Value list \<Rightarrow> bool" where
  "stops sat results = (signalsFailure sat results \<or> crashes sat results)"

text \<open>
  What holds of every container however it was used: the map \<open>typesCtors\<close> has distinct
  keys that point into \<open>constructors\<close>, the type registry lists exactly the keys, and a
  constructor record has one flag and one recorded input per parameter and at least one
  output.
\<close>

definition wf_container :: "'v Container \<Rightarrow> bool" where
  "wf_container c =
     (distinct (keys (typesCtors c)) \<and>
      (\<forall>t p. lookup (typesCtors c) t = Some p \<longrightarrow> p < length (constructors c)) \<and>
      set (typeRegistry c) = set (keys (typesCtors c)) \<and>
      (\<forall>ci \<in> set (constructors c).
          length (dependNeedsResolution ci) = length (args (signature ci)) \<and>
          length (fnIn (fn ci)) = length (args (signature ci)) \<and>
          0 < length (fnOut (fn ci))))"

text \<open>The containers a program can get hold of.\<close>

inductive reachable :: "(rtype \<Rightarrow> rtype \<Rightarrow> bool) \<Rightarrow> 'v Container \<Rightarrow> bool"
  for sat :: "rtype \<Rightarrow> rtype \<Rightarrow> bool" where
  reachable_new: "reachable sat NewContainer"
| reachable_Provide:
    "reachable sat c \<Longrightarrow> Provide sat constructor c = (r, c') \<Longrightarrow> reachable sat c'"
| reachable_Resolve:
    "reachable sat c \<Longrightarrow> valid_schedule sch \<Longrightarrow> Resolve sat sch tgt (c, w) = (r, c', w')
     \<Longrightarrow> reachable sat c'"

text \<open>What capability resolution leaves alone in a constructor record: everything but the
  entries of \<^verbatim>\<open>signature.args\<close>.\<close>

definition sameShape :: "'v constructorInfo \<Rightarrow> 'v constructorInfo \<Rightarrow> bool" where
  "sameShape a b =
     (fn b = fn a \<and> name b = name a \<and> dependNeedsResolution b = dependNeedsResolution a
      \<and> returnType (signature b) = returnType (signature a)
      \<and> length (args (signature b)) = length (args (signature a)))"

definition graphStep :: "'v Container \<Rightarrow> rtype \<Rightarrow> dependencyGraph \<Rightarrow> dependencyGraph" where
  "graphStep c typ g =
     (case lookup (typesCtors c) typ of
        None \<Rightarrow> g
      | Some p \<Rightarrow>
          let as = args (signature (constructors c ! p)) in
          \<lparr>dependencies = store typ as (dependencies g),
           dependents = addDependents typ as (dependents g)\<rparr>)"

definition requiredSet :: "'v Container \<Rightarrow> rtype set" where
  "requiredSet c = (\<Union>ci \<in> set (constructors c). set (args (signature ci)))"

definition missingTypes :: "'v Container \<Rightarrow> rtype set" where
  "missingTypes c = {d \<in> requiredSet c. lookup (typesCtors c) d = None}"

definition graphOk :: "rtype set \<Rightarrow> (rtype \<Rightarrow> rtype list) \<Rightarrow> (rtype, rtype list) gomap \<Rightarrow> bool" where
  "graphOk K deps dps =
     (\<forall>d. set (lookupList dps d) \<subseteq> K \<and>
          (\<forall>t \<in> K. count_list (lookupList dps d) t = count_list (deps t) d))"

definition kahnInv ::
  "rtype set \<Rightarrow> (rtype \<Rightarrow> rtype list) \<Rightarrow> (rtype, int) gomap \<Rightarrow> rtype list \<Rightarrow> rtype list \<Rightarrow> bool" where
  "kahnInv K deps inDegree queue result =
     (distinct (result @ queue) \<and> set (result @ queue) \<subseteq> K \<and>
      (\<forall>t \<in> K. degree inDegree t = int (length (filter (\<lambda>d. d \<notin> set result) (deps t)))) \<and>
      (\<forall>t \<in> K. t \<in> set (result @ queue) \<longleftrightarrow> degree inDegree t = 0) \<and>
      (\<forall>i < length result. set (deps (result ! i)) \<subseteq> set (take i result)))"

definition initialInDegree :: "schedule \<Rightarrow> 'v Container \<Rightarrow> (rtype, int) gomap" where
  "initialInDegree sch c =
     fold (\<lambda>typ m. store typ (int (length (lookupList (dependencies (graph c)) typ))) m)
       (ordDependencies sch (keys (dependencies (graph c))))
       (fold (\<lambda>typ m. store typ 0 m) (typeRegistry c) [])"

definition initialQueue :: "schedule \<Rightarrow> 'v Container \<Rightarrow> rtype list" where
  "initialQueue sch c =
     filter (\<lambda>typ. degree (initialInDegree sch c) typ = 0)
       (ordInDegree sch (keys (initialInDegree sch c)))"

definition kahnResult :: "schedule \<Rightarrow> 'v Container \<Rightarrow> rtype list" where
  "kahnResult sch c =
     kahnLoop (dependents (graph c)) (initialInDegree sch c) (initialQueue sch c) []"

text \<open>The required types with no constructor, as a list that can be computed.\<close>

definition requiredList :: "'v Container \<Rightarrow> rtype list" where
  "requiredList c = concat (map (\<lambda>ci. args (signature ci)) (constructors c))"

definition missingList :: "'v Container \<Rightarrow> rtype list" where
  "missingList c = filter (\<lambda>d. lookup (typesCtors c) d = None) (requiredList c)"

definition applyCall :: "(rtype \<Rightarrow> rtype \<Rightarrow> bool) \<Rightarrow> 'v call \<Rightarrow> (rtype, 'v Value) gomap \<Rightarrow> (rtype, 'v Value) gomap" where
  "applyCall sat e inst =
     (if \<not> stops sat (callResults e) \<and> callResults e \<noteq> []
      then store (callTyp e) (callResults e ! 0) inst else inst)"

definition replay :: "(rtype \<Rightarrow> rtype \<Rightarrow> bool) \<Rightarrow> 'v call list \<Rightarrow> (rtype, 'v Value) gomap \<Rightarrow> (rtype, 'v Value) gomap" where
  "replay sat es inst = fold (applyCall sat) es inst"

definition validCall ::
  "'v Container \<Rightarrow> 'v call list \<Rightarrow> (rtype, 'v Value) gomap \<Rightarrow> 'v call \<Rightarrow> bool" where
  "validCall c before inst e =
     (lookup (typesCtors c) (callTyp e) = Some (callCtor e) \<and>
      list_all (\<lambda>d. lookup inst d \<noteq> None) (depsOf c (callTyp e)) \<and>
      callArgs e = map (\<lambda>d. the (lookup inst d)) (depsOf c (callTyp e)) \<and>
      callResults e = CallFn (fn (constructors c ! callCtor e)) before (callArgs e))"

definition traceOk ::
  "(rtype \<Rightarrow> rtype \<Rightarrow> bool) \<Rightarrow> 'v Container \<Rightarrow> 'v call list \<Rightarrow> (rtype, 'v Value) gomap
   \<Rightarrow> rtype list \<Rightarrow> 'v call list \<Rightarrow> bool" where
  "traceOk sat c w inst ts new =
     (map callTyp new = take (length new) ts \<and>
      (\<forall>k < length new.
          validCall c (w @ take k new) (replay sat (take k new) inst) (new ! k) \<and>
          callResults (new ! k) \<noteq> [] \<and>
          (stops sat (callResults (new ! k)) \<longrightarrow> Suc k = length new)))"

definition outcomeOk ::
  "(rtype \<Rightarrow> rtype \<Rightarrow> bool) \<Rightarrow> 'v Container \<Rightarrow> (rtype, 'v Value) gomap
   \<Rightarrow> rtype list \<Rightarrow> 'v call list \<Rightarrow> ('v error, unit) result \<Rightarrow> bool" where
  "outcomeOk sat c inst ts new r =
     (case r of
        Ok u \<Rightarrow> length new = length ts \<and> list_all (\<lambda>e. \<not> stops sat (callResults e)) new
      | Err e \<Rightarrow>
          (new \<noteq> [] \<and> signalsFailure sat (callResults (last new)) \<and>
           e = FailedToResolve (callTyp (last new)) (ProducerError (last (callResults (last new)))))
          \<or>
          (length new < length ts \<and> list_all (\<lambda>e. \<not> stops sat (callResults e)) new \<and>
           ((lookup (typesCtors c) (ts ! length new) = None \<and>
             e = FailedToResolve (ts ! length new) (NoConstructorRegistered (ts ! length new)))
            \<or>
            list_ex (\<lambda>d. lookup (replay sat new inst) d = None \<and>
                       e = FailedToResolve (ts ! length new) (DependencyNotResolved d (ts ! length new)))
              (depsOf c (ts ! length new))))
      | Panic p \<Rightarrow> new \<noteq> [] \<and> crashes sat (callResults (last new)) \<and> p = IsNilOfValueKind)"

text \<open>A producer that signals failure whatever it is given.\<close>

definition alwaysFails :: "(rtype \<Rightarrow> rtype \<Rightarrow> bool) \<Rightarrow> 'v gofunc \<Rightarrow> bool" where
  "alwaysFails sat f = (\<forall>w as. signalsFailure sat (CallFn f w as))"

text \<open>
  The candidates for an interface input: the entries of the type registry (one per
  registration) that are not interfaces and implement the interface, themselves or
  through a pointer to them.
\<close>

definition candidates :: "(rtype \<Rightarrow> rtype \<Rightarrow> bool) \<Rightarrow> rtype list \<Rightarrow> rtype \<Rightarrow> rtype list" where
  "candidates sat registry it =
     filter (\<lambda>typ. Kind typ \<noteq> KInterface \<and> (sat typ it \<or> sat (PointerTo typ) it)) registry"

text \<open>
  The input slots of a constructor, each with its flag; a slot is bad when it is flagged
  and does not have exactly one candidate, and this is the error reported for it.
\<close>

definition slotsOf :: "'v constructorInfo \<Rightarrow> (bool \<times> rtype) list" where
  "slotsOf ci = zip (dependNeedsResolution ci) (args (signature ci))"

definition slotBad :: "(rtype \<Rightarrow> rtype \<Rightarrow> bool) \<Rightarrow> rtype list \<Rightarrow> bool \<times> rtype \<Rightarrow> bool" where
  "slotBad sat registry s = (fst s \<and> length (candidates sat registry (snd s)) \<noteq> 1)"

definition slotError :: "(rtype \<Rightarrow> rtype \<Rightarrow> bool) \<Rightarrow> rtype list \<Rightarrow> rtype \<Rightarrow> 'v error" where
  "slotError sat registry it =
     (if candidates sat registry it = [] then NoImplementationFound it
      else MultipleImplementationsFound it (candidates sat registry it))"

definition badSlots :: "(rtype \<Rightarrow> rtype \<Rightarrow> bool) \<Rightarrow> 'v Container \<Rightarrow> (bool \<times> rtype) list" where
  "badSlots sat c = filter (slotBad sat (typeRegistry c)) (concat (map slotsOf (constructors c)))"

text \<open>A flagged slot gets its only candidate; the other slots stay.\<close>

definition substSlot :: "(rtype \<Rightarrow> rtype \<Rightarrow> bool) \<Rightarrow> rtype list \<Rightarrow> bool \<times> rtype \<Rightarrow> rtype" where
  "substSlot sat registry s = (if fst s then hd (candidates sat registry (snd s)) else snd s)"

definition substCtor ::
  "(rtype \<Rightarrow> rtype \<Rightarrow> bool) \<Rightarrow> rtype list \<Rightarrow> 'v constructorInfo \<Rightarrow> 'v constructorInfo" where
  "substCtor sat registry ci =
     ci\<lparr>signature := (signature ci)\<lparr>args := map (substSlot sat registry) (slotsOf ci)\<rparr>\<rparr>"

definition slotsUnresolved :: "(bool \<times> rtype) list \<Rightarrow> bool" where
  "slotsUnresolved ss = list_all (\<lambda>s. fst s \<longrightarrow> Kind (snd s) = KInterface) ss"

text \<open>
  A container before its first capability resolution: every input flagged for
  resolution still is of interface kind. Registration alone produces such containers.
\<close>

definition unresolved :: "'v Container \<Rightarrow> bool" where
  "unresolved c = list_all (\<lambda>ci. slotsUnresolved (slotsOf ci)) (constructors c)"

section \<open>Example programs\<close>

text \<open>
  The types and constructors of the repository's tests and samples. A producer built by
  \<open>producer\<close> returns a fresh pointer (the number of calls made so far) and a nil
  error; one built by \<open>failingProducer\<close> returns a nil pointer and a non-nil error, as
  \<^verbatim>\<open>NewErrorDatabase\<close> does.
\<close>

definition idSchedule :: schedule where
  "idSchedule = \<lparr>ordCtors = (\<lambda>xs. xs), ordRequired = (\<lambda>xs. xs),
     ordDependencies = (\<lambda>xs. xs), ordInDegree = (\<lambda>xs. xs)\<rparr>"

definition revSchedule :: schedule where
  "revSchedule = \<lparr>ordCtors = rev, ordRequired = rev, ordDependencies = rev, ordInDegree = rev\<rparr>"

definition freshPointer :: "nat call list \<Rightarrow> nat Value list \<Rightarrow> nat \<Rightarrow> nat option" where
  "freshPointer w as i = (if i = 0 then Some (length w) else None)"

definition alwaysError :: "nat call list \<Rightarrow> nat Value list \<Rightarrow> nat \<Rightarrow> nat option" where
  "alwaysError w as i = (if i = 0 then None else Some 500)"

definition producer :: "string \<Rightarrow> rtype list \<Rightarrow> rtype list \<Rightarrow> nat gofunc" where
  "producer n ins outs = \<lparr>fnName = n, fnIn = ins, fnOut = outs, fnBody = freshPointer\<rparr>"

definition failingProducer :: "string \<Rightarrow> rtype list \<Rightarrow> rtype list \<Rightarrow> nat gofunc" where
  "failingProducer n ins outs = \<lparr>fnName = n, fnIn = ins, fnOut = outs, fnBody = alwaysError\<rparr>"

definition tA :: rtype where "tA = TPtr (TStruct ''A'')"
definition tB :: rtype where "tB = TPtr (TStruct ''B'')"
definition tC :: rtype where "tC = TPtr (TStruct ''C'')"
definition tDatabase :: rtype where "tDatabase = TPtr (TStruct ''Database'')"
definition tCache :: rtype where "tCache = TPtr (TStruct ''Cache'')"
definition tUserService :: rtype where "tUserService = TPtr (TStruct ''UserService'')"
definition tFileStorage :: rtype where "tFileStorage = TPtr (TStruct ''FileStorage'')"
definition tDataProcessor :: rtype where "tDataProcessor = TPtr (TStruct ''DataProcessor'')"
definition tMemoryStorage :: rtype where "tMemoryStorage = TPtr (TStruct ''MemoryStorage'')"
definition tStorage :: rtype where "tStorage = TInterface ''Storage''"

text \<open>
  The method sets of the examples: \<^verbatim>\<open>*FileStorage\<close> (as in the tests) and
  \<^verbatim>\<open>*MemoryStorage\<close> have the method of \<^verbatim>\<open>Storage\<close>, and the error type implements
  itself.
\<close>

definition testSat :: "rtype \<Rightarrow> rtype \<Rightarrow> bool" where
  "testSat t u =
     (((t = tFileStorage \<or> t = tMemoryStorage) \<and> u = tStorage) \<or> (t = errorType \<and> u = errorType))"

definition provideAll :: "(rtype \<Rightarrow> rtype \<Rightarrow> bool) \<Rightarrow> 'v gofunc list \<Rightarrow> 'v Container" where
  "provideAll sat fs = fold (\<lambda>f c. snd (Provide sat (AFunc f) c)) fs NewContainer"

definition databaseOnly :: "nat Container" where
  "databaseOnly = provideAll testSat [producer ''NewDatabase'' [] [tDatabase]]"

definition interfaceContainer :: "nat Container" where
  "interfaceContainer = provideAll testSat
     [producer ''NewFileStorage'' [] [tFileStorage],
      producer ''NewDataProcessor'' [tStorage] [tDataProcessor]]"

definition cyclicContainer :: "nat Container" where
  "cyclicContainer = provideAll testSat
     [producer ''newA'' [tC] [tA], producer ''newB'' [tA] [tB], producer ''newC'' [tB] [tC]]"

definition serverOnly :: "nat Container" where
  "serverOnly = provideAll testSat
     [producer ''NewUserService'' [tDatabase, tCache] [tUserService]]"

definition tStorageStruct :: rtype where "tStorageStruct = TPtr (TStruct ''Storage'')"

definition tServer :: rtype where "tServer = TPtr (TStruct ''Server'')"

definition tApp :: rtype where "tApp = TPtr (TStruct ''App'')"

definition appContainer :: "nat Container" where
  "appContainer = provideAll testSat
     [producer ''NewApp'' [tServer, tServer] [tApp, errorType],
      producer ''NewServer'' [tStorageStruct] [tServer],
      producer ''NewStorage'' [] [tStorageStruct]]"

definition failingContainer :: "nat Container" where
  "failingContainer = provideAll testSat
     [producer ''NewDatabase'' [] [tDatabase],
      failingProducer ''NewErrorCache'' [] [tCache, errorType],
      producer ''NewUserService'' [tDatabase, tCache] [tUserService]]"

definition tConfig :: rtype where "tConfig = TPtr (TStruct ''Config'')"

definition fixedPointer :: "nat \<Rightarrow> nat call list \<Rightarrow> nat Value list \<Rightarrow> nat \<Rightarrow> nat option" where
  "fixedPointer a w as i = (if i = 0 then Some a else None)"

definition producerAt :: "nat \<Rightarrow> string \<Rightarrow> rtype list \<Rightarrow> rtype list \<Rightarrow> nat gofunc" where
  "producerAt a n ins outs = \<lparr>fnName = n, fnIn = ins, fnOut = outs, fnBody = fixedPointer a\<rparr>"

definition processorOnly :: "nat Container" where
  "processorOnly = provideAll testSat
     [producer ''NewDataProcessor'' [tStorage] [tDataProcessor]]"

definition ambiguousContainer :: "nat Container" where
  "ambiguousContainer = provideAll testSat
     [producer ''NewFileStorage'' [] [tFileStorage],
      producer ''NewMemoryStorage'' [] [tMemoryStorage],
      producer ''NewDataProcessor'' [tStorage] [tDataProcessor]]"

text \<open>
  A failure type of struct kind: \<^verbatim>\<open>type ValueError struct{}\<close> with an \<^verbatim>\<open>Error\<close> method on
  the value receiver, returned by value.
\<close>

definition tValueError :: rtype where "tValueError = TStruct ''ValueError''"

definition valueErrorSat :: "rtype \<Rightarrow> rtype \<Rightarrow> bool" where
  "valueErrorSat t u = (testSat t u \<or> (t = tValueError \<and> u = errorType))"

definition valueErrorContainer :: "nat Container" where
  "valueErrorContainer = provideAll valueErrorSat
     [failingProducer ''NewErrorDatabase'' [] [tDatabase, tValueError]]"

text \<open>The cycle of the tests, next to a producer whose input cannot be had.\<close>

definition cyclicMissingContainer :: "nat Container" where
  "cyclicMissingContainer = provideAll testSat
     [producer ''newA'' [tC] [tA], producer ''newB'' [tA] [tB], producer ''newC'' [tB] [tC],
      producer ''NewDatabaseFromConfig'' [tConfig] [tDatabase]]"

definition cyclicUnimplementedContainer :: "nat Container" where
  "cyclicUnimplementedContainer = provideAll testSat
     [producer ''newA'' [tC] [tA], producer ''newB'' [tA] [tB], producer ''newC'' [tB] [tC],
      producer ''NewDataProcessor'' [tStorage] [tDataProcessor]]"

definition serverAndProcessor :: "nat Container" where
  "serverAndProcessor = provideAll testSat
     [producer ''NewUserService'' [tDatabase, tCache] [tUserService],
      producer ''NewDataProcessor'' [tStorage] [tDataProcessor]]"

definition duplicateContainer :: "nat Container" where
  "duplicateContainer = provideAll testSat
     [producer ''NewFileStorage'' [] [tFileStorage],
      producer ''NewFileStorage'' [] [tFileStorage],
      producer ''NewDataProcessor'' [tStorage] [tDataProcessor]]"

section \<open>Lemmas about the model\<close>

subsection \<open>Maps\<close>

lemma lookup_empty [simp]: "lookup [] k = None"
  by (simp add: lookup_def)

lemma lookup_store: "lookup (store k v m) k' = (if k' = k then Some v else lookup m k')"
  by (simp add: lookup_def store_def update_conv')

lemma set_keys_store: "set (keys (store k v m)) = insert k (set (keys m))"
  by (simp add: keys_def store_def dom_update)

lemma distinct_keys_store: "distinct (keys m) \<Longrightarrow> distinct (keys (store k v m))"
  by (simp add: keys_def store_def distinct_update)

lemma lookup_None_iff: "lookup m k = None \<longleftrightarrow> k \<notin> set (keys m)"
  by (simp add: lookup_def keys_def map_of_eq_None_iff)

lemma lookup_Some_keys: "lookup m k = Some v \<Longrightarrow> k \<in> set (keys m)"
  using lookup_None_iff [of m k] by auto

lemma lookupList_store:
  "lookupList (store k v m) k' = (if k' = k then v else lookupList m k')"
  by (simp add: lookupList_def lookup_store)

lemma degree_store: "degree (store k v m) k' = (if k' = k then v else degree m k')"
  by (simp add: degree_def lookup_store)

lemma keys_empty [simp]: "keys [] = []"
  by (simp add: keys_def)

subsection \<open>Well-formedness\<close>

lemma wf_NewContainer: "wf_container NewContainer"
  by (simp add: wf_container_def NewContainer_def)

lemma analyzeFunction_Ok:
  assumes "analyzeFunction sat f = Ok sg"
  shows "args sg = fnIn f" and "0 < length (fnOut f)" and "returnType sg = fnOut f ! 0"
    and "Kind (returnType sg) = KPointer"
  using assms
  by (auto simp: analyzeFunction_def Let_def split: if_splits sum.splits)

lemma Provide_Ok:
  assumes "Provide sat (AFunc f) c = (Ok u, c')"
  shows "c' = c\<lparr>constructors := constructors c @
               [\<lparr>fn = f, name = fnName f, signature = \<lparr>args = fnIn f, returnType = fnOut f ! 0\<rparr>,
                 dependNeedsResolution = map (\<lambda>arg. Kind arg = KInterface) (fnIn f)\<rparr>],
             typesCtors := store (fnOut f ! 0) (length (constructors c)) (typesCtors c),
             typeRegistry := typeRegistry c @ [fnOut f ! 0]\<rparr>"
    and "0 < length (fnOut f)" and "Kind (fnOut f ! 0) = KPointer"
proof -
  from assms obtain sg where sg: "analyzeFunction sat f = Ok sg"
    by (auto simp: Provide_def split: result.splits)
  have eq: "sg = \<lparr>args = fnIn f, returnType = fnOut f ! 0\<rparr>"
    using analyzeFunction_Ok(1,3) [OF sg] by simp
  show "0 < length (fnOut f)" using analyzeFunction_Ok(2) [OF sg] .
  show "Kind (fnOut f ! 0) = KPointer" using analyzeFunction_Ok(3,4) [OF sg] by simp
  show "c' = c\<lparr>constructors := constructors c @
               [\<lparr>fn = f, name = fnName f, signature = \<lparr>args = fnIn f, returnType = fnOut f ! 0\<rparr>,
                 dependNeedsResolution = map (\<lambda>arg. Kind arg = KInterface) (fnIn f)\<rparr>],
             typesCtors := store (fnOut f ! 0) (length (constructors c)) (typesCtors c),
             typeRegistry := typeRegistry c @ [fnOut f ! 0]\<rparr>"
    using assms sg by (simp add: Provide_def Let_def eq)
qed

lemma Provide_not_Ok:
  assumes "Provide sat constructor c = (r, c')" and "\<forall>u. r \<noteq> Ok u"
  shows "c' = c"
  using assms
  by (auto simp: Provide_def Let_def split: goany.splits result.splits)

lemma wf_Provide:
  assumes "wf_container c" and "Provide sat constructor c = (r, c')"
  shows "wf_container c'"
proof (cases "\<exists>u. r = Ok u")
  case False
  then show ?thesis using Provide_not_Ok [OF assms(2)] assms(1) by simp
next
  case True
  then obtain f where f: "constructor = AFunc f"
    using assms(2) by (cases constructor) (auto simp: Provide_def)
  from True f assms(2) have P: "Provide sat (AFunc f) c = (Ok (), c')" by auto
  note c' = Provide_Ok(1) [OF P] and out = Provide_Ok(2) [OF P]
  show ?thesis
    using assms(1) out unfolding wf_container_def
    by (subst (1 2 3 4 5 6) c')
      (auto simp: distinct_keys_store set_keys_store lookup_store less_Suc_eq split: if_splits)
qed

lemma resolveArgs_length:
  "resolveArgs sat registry fl as = (r, as') \<Longrightarrow> length as' = length as"
proof (induction sat registry fl as arbitrary: r as' rule: resolveArgs.induct)
  case (1 sat registry as)
  then show ?case by simp
next
  case (2 sat registry i needsResolution rest as)
  then show ?case
    by (auto simp: Let_def split: if_splits sum.splits)
qed

lemma resolveCtors_shape:
  "resolveCtors sat registry cs = (r, cs') \<Longrightarrow> list_all2 sameShape cs cs'"
proof (induction cs arbitrary: r cs')
  case Nil
  then show ?case by simp
next
  case (Cons ci cs)
  obtain r1 as where ra: "resolveArgs sat registry (enumerate 0 (dependNeedsResolution ci))
             (args (signature ci)) = (r1 :: ('a error, unit) result, as)"
    by (cases "resolveArgs sat registry (enumerate 0 (dependNeedsResolution ci))
             (args (signature ci)) :: ('a error, unit) result \<times> rtype list") auto
  have len: "length as = length (args (signature ci))"
    using resolveArgs_length [OF ra] .
  have shape: "sameShape ci (ci\<lparr>signature := (signature ci)\<lparr>args := as\<rparr>\<rparr>)"
    using len by (simp add: sameShape_def)
  have refl: "list_all2 sameShape cs cs"
    by (simp add: list_all2_refl sameShape_def)
  show ?case
  proof (cases r1)
    case (Ok u)
    obtain r2 rest' where rc: "resolveCtors sat registry cs = (r2 :: ('a error, unit) result, rest')"
      by (cases "resolveCtors sat registry cs :: ('a error, unit) result \<times> 'a constructorInfo list") auto
    from Cons.IH [OF rc] Cons.prems ra Ok rc shape show ?thesis by auto
  next
    case (Err e)
    with Cons.prems ra shape refl show ?thesis by auto
  next
    case (Panic p)
    with Cons.prems ra shape refl show ?thesis by auto
  qed
qed

lemma resolveInterfaces_fields:
  assumes "resolveInterfaces sat c = (r, c')"
  shows "typesCtors c' = typesCtors c" and "typeRegistry c' = typeRegistry c"
    and "instances c' = instances c" and "graph c' = graph c"
    and "list_all2 sameShape (constructors c) (constructors c')"
proof -
  obtain r0 cs where rc: "resolveCtors sat (typeRegistry c) (constructors c) = (r0 :: ('a error, unit) result, cs)"
    by (cases "resolveCtors sat (typeRegistry c) (constructors c) :: ('a error, unit) result \<times> 'a constructorInfo list") auto
  with assms have c': "c' = c\<lparr>constructors := cs\<rparr>"
    by (simp add: resolveInterfaces_def)
  show "typesCtors c' = typesCtors c" "typeRegistry c' = typeRegistry c"
    "instances c' = instances c" "graph c' = graph c"
    by (simp_all add: c')
  show "list_all2 sameShape (constructors c) (constructors c')"
    using resolveCtors_shape [OF rc] by (simp add: c')
qed

lemma wf_sameShape:
  assumes "wf_container c" and "typesCtors c' = typesCtors c" and "typeRegistry c' = typeRegistry c"
    and "list_all2 sameShape (constructors c) (constructors c')"
  shows "wf_container c'"
proof -
  have len: "length (constructors c') = length (constructors c)"
    using assms(4) by (simp add: list_all2_lengthD)
  have "\<forall>ci' \<in> set (constructors c').
          length (dependNeedsResolution ci') = length (args (signature ci')) \<and>
          length (fnIn (fn ci')) = length (args (signature ci')) \<and>
          0 < length (fnOut (fn ci'))"
  proof
    fix ci' assume "ci' \<in> set (constructors c')"
    then obtain i where i: "i < length (constructors c')" "ci' = constructors c' ! i"
      by (auto simp: in_set_conv_nth)
    have "sameShape (constructors c ! i) ci'"
      using assms(4) i len by (simp add: list_all2_nthD2)
    moreover have "constructors c ! i \<in> set (constructors c)"
      using i len by simp
    ultimately show "length (dependNeedsResolution ci') = length (args (signature ci')) \<and>
          length (fnIn (fn ci')) = length (args (signature ci')) \<and>
          0 < length (fnOut (fn ci'))"
      using assms(1) by (auto simp: wf_container_def sameShape_def)
  qed
  then show ?thesis
    using assms(1,2,3) len by (simp add: wf_container_def)
qed

lemma wf_resolveInterfaces:
  "wf_container c \<Longrightarrow> resolveInterfaces sat c = (r, c') \<Longrightarrow> wf_container c'"
  using resolveInterfaces_fields(1,2,5) wf_sameShape by blast

lemma rebuildGraph_fields:
  "typesCtors (rebuildGraph sch c) = typesCtors c"
  "typeRegistry (rebuildGraph sch c) = typeRegistry c"
  "instances (rebuildGraph sch c) = instances c"
  "constructors (rebuildGraph sch c) = constructors c"
  by (simp_all add: rebuildGraph_def)

lemma wf_rebuildGraph: "wf_container c \<Longrightarrow> wf_container (rebuildGraph sch c)"
  by (simp add: wf_container_def rebuildGraph_fields)

lemma resolveInstance_fields:
  assumes "resolveInstance sat typ (c, w) = (r, c', w')"
  shows "typesCtors c' = typesCtors c" and "typeRegistry c' = typeRegistry c"
    and "constructors c' = constructors c" and "graph c' = graph c"
  using assms
  by (auto simp: resolveInstance_def Let_def split: option.splits result.splits if_splits sum.splits)

lemma resolveAll_fields:
  "resolveAll sat ts (c, w) = (r, c', w') \<Longrightarrow>
     typesCtors c' = typesCtors c \<and> typeRegistry c' = typeRegistry c \<and>
     constructors c' = constructors c \<and> graph c' = graph c"
proof (induction ts arbitrary: c w)
  case Nil
  then show ?case by simp
next
  case (Cons t ts)
  obtain r1 c1 w1 where ri: "resolveInstance sat t (c, w) = (r1, c1, w1)"
    by (cases "resolveInstance sat t (c, w)") auto
  note f = resolveInstance_fields [OF ri]
  show ?case
  proof (cases r1)
    case (Ok u)
    with Cons.prems ri have "resolveAll sat ts (c1, w1) = (r, c', w')" by simp
    from Cons.IH [OF this] f show ?thesis by simp
  next
    case (Err e)
    with Cons.prems ri f show ?thesis by auto
  next
    case (Panic p)
    with Cons.prems ri f show ?thesis by auto
  qed
qed

lemma wf_resolveAll:
  "wf_container c \<Longrightarrow> resolveAll sat ts (c, w) = (r, c', w') \<Longrightarrow> wf_container c'"
  using resolveAll_fields [of sat ts c w r c' w'] by (simp add: wf_container_def)

subsection \<open>The stages of Resolve\<close>

lemma checkRequired_not_Panic: "checkRequired tc ds \<noteq> Panic p"
  by (induction ds) (auto split: option.splits)

lemma validateDependencies_not_Panic: "validateDependencies sch c \<noteq> Panic p"
  by (simp add: validateDependencies_def checkRequired_not_Panic)

lemma topologicalSort_not_Panic: "topologicalSort sch c \<noteq> Panic p"
  by (simp add: topologicalSort_def Let_def)

lemma Resolve_cases [consumes 1, case_names interfacePanic interfaceErr missing cycle run]:
  assumes R: "Resolve sat sch (TargetPtr T) (c, w) = (r, c', w')"
  obtains
    (interfacePanic) p where "resolveInterfaces sat c = (Panic p, c')" "r = Panic p" "w' = w"
  | (interfaceErr) e where "resolveInterfaces sat c = (Err e, c')"
      "r = Err (InterfaceResolutionFailed e)" "w' = w"
  | (missing) c1 e where "resolveInterfaces sat c = (Ok (), c1)"
      "validateDependencies sch (rebuildGraph sch c1) = Err e"
      "r = Err e" "c' = rebuildGraph sch c1" "w' = w"
  | (cycle) c1 e where "resolveInterfaces sat c = (Ok (), c1)"
      "validateDependencies sch (rebuildGraph sch c1) = Ok ()"
      "topologicalSort sch (rebuildGraph sch c1) = Err e"
      "r = Err (DependencyResolutionFailed e)" "c' = rebuildGraph sch c1" "w' = w"
  | (run) c1 sortedTypes r3 where "resolveInterfaces sat c = (Ok (), c1)"
      "validateDependencies sch (rebuildGraph sch c1) = Ok ()"
      "topologicalSort sch (rebuildGraph sch c1) = Ok sortedTypes"
      "resolveAll sat sortedTypes (rebuildGraph sch c1, w) = (r3, c', w')"
      "r = (case r3 of
              Panic p \<Rightarrow> Panic p
            | Err e \<Rightarrow> Err e
            | Ok u \<Rightarrow>
                (case lookup (instances c') T of
                   Some instance \<Rightarrow>
                     if AssignableTo sat (vType instance) T then Ok instance
                     else Err (NotAssignable (vType instance) T)
                 | None \<Rightarrow> Err (NoInstanceFound T)))"
proof -
  obtain r1 c1 where ri: "resolveInterfaces sat c = (r1, c1)"
    by (cases "resolveInterfaces sat c :: ('a error, unit) result \<times> 'a Container") auto
  show thesis
  proof (cases r1)
    case (Panic p)
    with R ri show ?thesis by (intro interfacePanic [of p]) (auto simp: Resolve_def)
  next
    case (Err e)
    with R ri show ?thesis by (intro interfaceErr [of e]) (auto simp: Resolve_def)
  next
    case (Ok u)
    let ?c2 = "rebuildGraph sch c1"
    show ?thesis
    proof (cases "validateDependencies sch ?c2 :: ('a error, unit) result")
      case (Panic p)
      then show ?thesis using validateDependencies_not_Panic by blast
    next
      case (Err e)
      with R ri Ok show ?thesis
        by (intro missing [of c1 e]) (auto simp: Resolve_def Let_def)
    next
      case vOk: (Ok u2)
      show ?thesis
      proof (cases "topologicalSort sch ?c2 :: ('a error, rtype list) result")
        case (Panic p)
        then show ?thesis using topologicalSort_not_Panic by blast
      next
        case (Err e)
        with R ri Ok vOk show ?thesis
          by (intro cycle [of c1 e]) (auto simp: Resolve_def Let_def)
      next
        case sOk: (Ok sortedTypes)
        obtain r3 c3 w3 where ra: "resolveAll sat sortedTypes (?c2, w) = (r3, c3, w3)"
          by (cases "resolveAll sat sortedTypes (?c2, w)") auto
        from R ri Ok vOk sOk ra have "c' = c3 \<and> w' = w3"
          by (auto simp: Resolve_def Let_def split: result.splits option.splits if_splits)
        with R ri Ok vOk sOk ra show ?thesis
          by (intro run [of c1 sortedTypes r3])
            (auto simp: Resolve_def Let_def split: result.splits option.splits if_splits)
      qed
    qed
  qed
qed

lemma wf_Resolve:
  assumes "wf_container c" and "Resolve sat sch tgt (c, w) = (r, c', w')"
  shows "wf_container c'"
proof (cases tgt)
  case TargetNotPointer
  with assms show ?thesis by (simp add: Resolve_def)
next
  case TargetNilPointer
  with assms show ?thesis by (simp add: Resolve_def)
next
  case (TargetPtr T)
  with assms(2) have R: "Resolve sat sch (TargetPtr T) (c, w) = (r, c', w')" by simp
  from R show ?thesis
  proof (cases rule: Resolve_cases)
    case (interfacePanic p)
    then show ?thesis using wf_resolveInterfaces [OF assms(1)] by blast
  next
    case (interfaceErr e)
    then show ?thesis using wf_resolveInterfaces [OF assms(1)] by blast
  next
    case (missing c1 e)
    then show ?thesis using wf_resolveInterfaces [OF assms(1)] wf_rebuildGraph by blast
  next
    case (cycle c1 e)
    then show ?thesis using wf_resolveInterfaces [OF assms(1)] wf_rebuildGraph by blast
  next
    case (run c1 sortedTypes r3)
    then show ?thesis
      using wf_resolveInterfaces [OF assms(1)] wf_rebuildGraph wf_resolveAll by blast
  qed
qed

lemma reachable_wf: "reachable sat c \<Longrightarrow> wf_container c"
proof (induction rule: reachable.induct)
  case reachable_new
  show ?case by (rule wf_NewContainer)
next
  case (reachable_Provide c constructor r c')
  then show ?case using wf_Provide by blast
next
  case (reachable_Resolve c sch tgt w r c' w')
  then show ?case using wf_Resolve by blast
qed

subsection \<open>The rebuilt graph\<close>

lemma keys_lookup: "k \<in> set (keys m) \<Longrightarrow> \<exists>v. lookup m k = Some v"
  using lookup_None_iff [of m k] by auto

lemma permutesD:
  assumes "permutes f" and "distinct xs"
  shows "distinct (f xs)" and "set (f xs) = set xs"
  using assms by (auto simp: permutes_def)

lemma addDependents_lookupList:
  "lookupList (addDependents typ deps m) d = lookupList m d @ replicate (count_list deps d) typ"
  unfolding addDependents_def
proof (induction deps arbitrary: m)
  case Nil
  show ?case by simp
next
  case (Cons dep deps)
  show ?case
    by (simp add: Cons.IH lookupList_store replicate_append_same)
qed

lemma rebuildGraph_graphStep:
  "graph (rebuildGraph sch c)
     = fold (graphStep c) (ordCtors sch (keys (typesCtors c))) \<lparr>dependencies = [], dependents = []\<rparr>"
proof -
  have "graphStep c = (\<lambda>typ g.
                 case lookup (typesCtors c) typ of
                   None \<Rightarrow> g
                 | Some p \<Rightarrow>
                     let as = args (signature (constructors c ! p)) in
                     \<lparr>dependencies = store typ as (dependencies g),
                      dependents = addDependents typ as (dependents g)\<rparr>)"
    by (intro ext) (simp add: graphStep_def)
  then show ?thesis by (simp add: rebuildGraph_def)
qed

lemma graphStep_dependencies:
  "lookupList (dependencies (graphStep c typ g)) t
     = (if t = typ \<and> lookup (typesCtors c) typ \<noteq> None then depsOf c t
        else lookupList (dependencies g) t)"
  by (auto simp: graphStep_def depsOf_def Let_def lookupList_store split: option.splits)

lemma graphStep_keys:
  "set (keys (dependencies (graphStep c typ g)))
     = set (keys (dependencies g)) \<union> (if lookup (typesCtors c) typ \<noteq> None then {typ} else {})"
  by (auto simp: graphStep_def Let_def set_keys_store split: option.splits)

lemma graphStep_distinct:
  "distinct (keys (dependencies g)) \<Longrightarrow> distinct (keys (dependencies (graphStep c typ g)))"
  by (auto simp: graphStep_def Let_def distinct_keys_store split: option.splits)

lemma graphStep_dependents:
  "lookupList (dependents (graphStep c typ g)) d
     = lookupList (dependents g) d @ replicate (count_list (depsOf c typ) d) typ"
  by (auto simp: graphStep_def depsOf_def Let_def addDependents_lookupList split: option.splits)

lemma fold_graphStep:
  "lookupList (dependencies (fold (graphStep c) ts g)) t
     = (if t \<in> set ts \<and> lookup (typesCtors c) t \<noteq> None then depsOf c t
        else lookupList (dependencies g) t)"
  "set (keys (dependencies (fold (graphStep c) ts g)))
     = set (keys (dependencies g)) \<union> {t \<in> set ts. lookup (typesCtors c) t \<noteq> None}"
  "distinct (keys (dependencies g)) \<Longrightarrow> distinct (keys (dependencies (fold (graphStep c) ts g)))"
  "lookupList (dependents (fold (graphStep c) ts g)) d
     = lookupList (dependents g) d @ concat (map (\<lambda>t. replicate (count_list (depsOf c t) d) t) ts)"
proof (induction ts arbitrary: g)
  case Nil
  {
    case 1 show ?case by simp
  next
    case 2 show ?case by simp
  next
    case 3 then show ?case by simp
  next
    case 4 show ?case by simp
  }
next
  case (Cons a ts)
  {
    case 1 show ?case
      by (auto simp: Cons.IH(1) graphStep_dependencies)
  next
    case 2 show ?case
      by (auto simp: Cons.IH(2) graphStep_keys)
  next
    case 3 then show ?case
      by (simp add: Cons.IH(3) graphStep_distinct)
  next
    case 4 show ?case
      by (simp add: Cons.IH(4) graphStep_dependents)
  }
qed

lemma count_list_concat_replicate:
  "distinct ts \<Longrightarrow>
   count_list (concat (map (\<lambda>t. replicate (n t) t) ts)) x = (if x \<in> set ts then n x else 0)"
proof (induction ts)
  case Nil
  show ?case by simp
next
  case (Cons a ts)
  have rep: "\<And>k y. count_list (replicate k y) x = (if x = y then k else 0)"
    subgoal for k y by (induction k) auto
    done
  from Cons show ?case
    by (auto simp: rep)
qed

lemma set_concat_replicate: "set (concat (map (\<lambda>t. replicate (n t) t) ts)) \<subseteq> set ts"
proof (induction ts)
  case Nil
  show ?case by simp
next
  case (Cons a ts)
  have "set (replicate (n a) a) \<subseteq> {a}" by (cases "n a") auto
  with Cons show ?case by auto
qed

lemma depsOf_rebuildGraph: "depsOf (rebuildGraph sch c) = depsOf c"
  by (intro ext) (simp add: depsOf_def rebuildGraph_fields(1,4) split: option.splits)

lemma rebuildGraph_facts:
  assumes wf: "wf_container c" and sch: "valid_schedule sch"
  defines "g \<equiv> graph (rebuildGraph sch c)"
  shows "lookupList (dependencies g) t = depsOf c t"
    and "set (keys (dependencies g)) = set (keys (typesCtors c))"
    and "distinct (keys (dependencies g))"
    and "set (lookupList (dependents g) d) \<subseteq> set (keys (typesCtors c))"
    and "count_list (lookupList (dependents g) d) t
           = (if t \<in> set (keys (typesCtors c)) then count_list (depsOf c t) d else 0)"
proof -
  let ?K = "keys (typesCtors c)"
  let ?ord = "ordCtors sch ?K"
  have dK: "distinct ?K" using wf by (simp add: wf_container_def)
  have p: "permutes (ordCtors sch)" using sch by (simp add: valid_schedule_def)
  note ord = permutesD [OF p dK]
  have g: "g = fold (graphStep c) ?ord \<lparr>dependencies = [], dependents = []\<rparr>"
    by (simp add: g_def rebuildGraph_graphStep)
  have none: "\<And>t. lookup (typesCtors c) t \<noteq> None \<longleftrightarrow> t \<in> set ?K"
    by (simp add: lookup_None_iff)
  show "lookupList (dependencies g) t = depsOf c t"
  proof (cases "t \<in> set ?K")
    case True
    then have "t \<in> set ?ord \<and> lookup (typesCtors c) t \<noteq> None"
      using none ord(2) by simp
    then show ?thesis unfolding g fold_graphStep(1) by simp
  next
    case False
    then have n: "lookup (typesCtors c) t = None" using none by blast
    then have "depsOf c t = []" by (simp add: depsOf_def)
    then show ?thesis unfolding g fold_graphStep(1) using n by (simp add: lookupList_def)
  qed
  show "set (keys (dependencies g)) = set ?K"
  proof -
    have "{t \<in> set ?ord. lookup (typesCtors c) t \<noteq> None} = set ?K"
      using none ord(2) by blast
    then show ?thesis unfolding g fold_graphStep(2) by simp
  qed
  show "distinct (keys (dependencies g))"
    unfolding g by (rule fold_graphStep(3)) simp
  have dl: "lookupList (dependents g) d
      = concat (map (\<lambda>t. replicate (count_list (depsOf c t) d) t) ?ord)"
    unfolding g fold_graphStep(4) by (simp add: lookupList_def)
  show "set (lookupList (dependents g) d) \<subseteq> set ?K"
    unfolding dl using set_concat_replicate [of "\<lambda>t. count_list (depsOf c t) d" ?ord] ord(2)
    by simp
  show "count_list (lookupList (dependents g) d) t
           = (if t \<in> set ?K then count_list (depsOf c t) d else 0)"
    unfolding dl using count_list_concat_replicate [OF ord(1), of "\<lambda>t. count_list (depsOf c t) d" t]
    by (simp add: ord(2))
qed

subsection \<open>Validation\<close>

lemma fold_store_keys:
  "set (keys (fold (\<lambda>k m. store k (f k) m) ks m)) = set (keys m) \<union> set ks"
  by (induction ks arbitrary: m) (auto simp: set_keys_store)

lemma fold_store_distinct:
  "distinct (keys m) \<Longrightarrow> distinct (keys (fold (\<lambda>k m. store k (f k) m) ks m))"
  by (induction ks arbitrary: m) (auto simp: distinct_keys_store)

lemma fold_store_lookup:
  "lookup (fold (\<lambda>k m. store k (f k) m) ks m) x
     = (if x \<in> set ks then Some (f x) else lookup m x)"
  by (induction ks arbitrary: m) (auto simp: lookup_store)

lemma requiredTypes_fold:
  "set (keys (fold (\<lambda>ctor m. fold (\<lambda>depType m. store depType True m) (args (signature ctor)) m) cs m))
     = set (keys m) \<union> (\<Union>ci \<in> set cs. set (args (signature ci)))"
  "distinct (keys m) \<Longrightarrow>
   distinct (keys (fold (\<lambda>ctor m. fold (\<lambda>depType m. store depType True m) (args (signature ctor)) m) cs m))"
proof (induction cs arbitrary: m)
  case Nil
  {
    case 1 show ?case by simp
  next
    case 2 then show ?case by simp
  }
next
  case (Cons ci cs)
  {
    case 1 show ?case
      by (simp add: Cons.IH(1) fold_store_keys Un_assoc)
  next
    case 2 then show ?case
      by (simp add: Cons.IH(2) fold_store_distinct)
  }
qed

lemma requiredTypes_keys:
  shows "set (keys (requiredTypes c)) = requiredSet c" and "distinct (keys (requiredTypes c))"
  unfolding requiredTypes_def requiredSet_def
  by (simp_all add: requiredTypes_fold)

lemma checkRequired_Ok_iff:
  "checkRequired tc ds = Ok u \<longleftrightarrow> (\<forall>d \<in> set ds. lookup tc d \<noteq> None)"
  by (induction ds) (auto split: option.splits)

lemma checkRequired_Err:
  "checkRequired tc ds = Err e \<Longrightarrow> \<exists>d \<in> set ds. e = MissingConstructor d \<and> lookup tc d = None"
  by (induction ds) (auto split: option.splits)

lemma validateDependencies_Ok_iff:
  assumes "valid_schedule sch"
  shows "validateDependencies sch c = Ok u \<longleftrightarrow> missingTypes c = {}"
proof -
  have p: "permutes (ordRequired sch)" using assms by (simp add: valid_schedule_def)
  have "set (ordRequired sch (keys (requiredTypes c))) = requiredSet c"
    using permutesD(2) [OF p requiredTypes_keys(2) [of c]] requiredTypes_keys(1) [of c] by simp
  then show ?thesis
    unfolding validateDependencies_def checkRequired_Ok_iff missingTypes_def by auto
qed

lemma validateDependencies_Err:
  assumes "valid_schedule sch" and "validateDependencies sch c = Err e"
  shows "\<exists>d \<in> missingTypes c. e = MissingConstructor d"
proof -
  have p: "permutes (ordRequired sch)" using assms by (simp add: valid_schedule_def)
  have s: "set (ordRequired sch (keys (requiredTypes c))) = requiredSet c"
    using permutesD(2) [OF p requiredTypes_keys(2) [of c]] requiredTypes_keys(1) [of c] by simp
  from checkRequired_Err [OF assms(2) [unfolded validateDependencies_def]] s
  show ?thesis by (auto simp: missingTypes_def)
qed

lemma validateDependencies_missing:
  assumes "valid_schedule sch" and "missingTypes c \<noteq> {}"
  shows "\<exists>d \<in> missingTypes c. validateDependencies sch c = Err (MissingConstructor d)"
proof (cases "validateDependencies sch c :: ('a error, unit) result")
  case (Ok u)
  then show ?thesis using validateDependencies_Ok_iff [OF assms(1)] assms(2) by blast
next
  case (Err e)
  then show ?thesis using validateDependencies_Err [OF assms(1)] by blast
next
  case (Panic p)
  then show ?thesis using validateDependencies_not_Panic by blast
qed

lemma validated_depsOf:
  assumes wf: "wf_container c" and "missingTypes c = {}"
  shows "set (depsOf c t) \<subseteq> set (keys (typesCtors c))"
proof (cases "lookup (typesCtors c) t")
  case None
  then show ?thesis by (simp add: depsOf_def)
next
  case (Some p)
  then have "p < length (constructors c)" using wf by (simp add: wf_container_def)
  then have "constructors c ! p \<in> set (constructors c)" by simp
  then have "set (depsOf c t) \<subseteq> requiredSet c"
    using Some by (auto simp: depsOf_def requiredSet_def)
  moreover have "\<And>d. d \<in> requiredSet c \<Longrightarrow> d \<in> set (keys (typesCtors c))"
    using assms(2) lookup_None_iff [of "typesCtors c"] by (auto simp: missingTypes_def)
  ultimately show ?thesis by blast
qed

subsection \<open>The loop of the topological sort\<close>

lemma reduceInDegree_eq:
  "reduceInDegree d (m, q)
     = (store d (degree m d - 1) m, if degree m d = 1 then q @ [d] else q)"
  by (simp add: reduceInDegree_def Let_def degree_store)

lemma fold_reduceInDegree_degree:
  "fold reduceInDegree L (m, q) = (m', q') \<Longrightarrow>
   degree m' t = degree m t - int (count_list L t)"
proof (induction L arbitrary: m q)
  case Nil
  then show ?case by simp
next
  case (Cons d L)
  have "fold reduceInDegree L (store d (degree m d - 1) m, if degree m d = 1 then q @ [d] else q)
      = (m', q')"
    using Cons.prems by (simp only: fold_simps reduceInDegree_eq o_apply)
  from Cons.IH [OF this] show ?case by (simp add: degree_store)
qed

lemma fold_reduceInDegree_queue:
  "fold reduceInDegree L (m, q) = (m', q') \<Longrightarrow>
   \<exists>news. q' = q @ news \<and> distinct news \<and>
      set news = {t \<in> set L. 1 \<le> degree m t \<and> degree m t \<le> int (count_list L t)}"
proof (induction L arbitrary: m q)
  case Nil
  then show ?case by simp
next
  case (Cons d L)
  let ?m1 = "store d (degree m d - 1) m"
  let ?q1 = "if degree m d = 1 then q @ [d] else q"
  have f: "fold reduceInDegree L (?m1, ?q1) = (m', q')"
    using Cons.prems by (simp only: fold_simps reduceInDegree_eq o_apply)
  from Cons.IH [OF f] obtain news where news: "q' = ?q1 @ news" "distinct news"
    "set news = {t \<in> set L. 1 \<le> degree ?m1 t \<and> degree ?m1 t \<le> int (count_list L t)}"
    by blast
  have cnt: "d \<notin> set L \<Longrightarrow> count_list L d = 0" by simp
  let ?news = "(if degree m d = 1 then [d] else []) @ news"
  have "q' = q @ ?news" using news(1) by simp
  moreover have "distinct ?news"
    using news(2,3) by (auto simp: degree_store)
  moreover have "set ?news
      = {t \<in> set (d # L). 1 \<le> degree m t \<and> degree m t \<le> int (count_list (d # L) t)}"
  proof (intro set_eqI iffI)
    fix t assume "t \<in> set ?news"
    then consider "degree m d = 1" "t = d" | "t \<in> set news" by (auto split: if_splits)
    then show "t \<in> {t \<in> set (d # L). 1 \<le> degree m t \<and> degree m t \<le> int (count_list (d # L) t)}"
    proof cases
      case 1 then show ?thesis by simp
    next
      case 2 then show ?thesis
        unfolding news(3) by (cases "t = d") (auto simp: degree_store)
    qed
  next
    fix t assume t: "t \<in> {t \<in> set (d # L). 1 \<le> degree m t \<and> degree m t \<le> int (count_list (d # L) t)}"
    show "t \<in> set ?news"
    proof (cases "t = d")
      case False
      with t show ?thesis unfolding set_append news(3) by (simp add: degree_store)
    next
      case True
      show ?thesis
      proof (cases "degree m d = 1")
        case True
        with \<open>t = d\<close> show ?thesis by simp
      next
        case False
        with t \<open>t = d\<close> have r: "2 \<le> degree m d" "degree m d \<le> int (count_list L d) + 1" by auto
        then have "d \<in> set L" using cnt by fastforce
        with r \<open>t = d\<close> show ?thesis unfolding set_append news(3) by (simp add: degree_store)
      qed
    qed
  qed
  ultimately show ?case by blast
qed

lemma filter_insert_count:
  "c \<notin> R \<Longrightarrow>
   length (filter (\<lambda>d. d \<notin> R) xs) = length (filter (\<lambda>d. d \<notin> insert c R) xs) + count_list xs c"
  by (induction xs) auto

lemma kahn_step:
  assumes G: "graphOk K deps dps"
    and I: "kahnInv K deps m (current # q) result"
    and F: "fold reduceInDegree (lookupList dps current) (m, q) = (m', q')"
  shows "kahnInv K deps m' q' (result @ [current])"
proof -
  let ?L = "lookupList dps current"
  let ?old = "set (result @ current # q)"
  from I have dist: "distinct (result @ current # q)" and sub: "?old \<subseteq> K"
    unfolding kahnInv_def by blast+
  from I have deg: "\<And>t. t \<in> K \<Longrightarrow> degree m t = int (length (filter (\<lambda>d. d \<notin> set result) (deps t)))"
    unfolding kahnInv_def by blast
  from I have mem: "\<And>t. t \<in> K \<Longrightarrow> t \<in> ?old \<longleftrightarrow> degree m t = 0"
    unfolding kahnInv_def by blast
  from I have topo: "\<And>i. i < length result \<Longrightarrow> set (deps (result ! i)) \<subseteq> set (take i result)"
    unfolding kahnInv_def by blast
  have cK: "current \<in> K" using sub by simp
  have cnr: "current \<notin> set result" using dist by simp
  from G have LK: "set ?L \<subseteq> K"
    and cnt: "\<And>t. t \<in> K \<Longrightarrow> count_list ?L t = count_list (deps t) current"
    unfolding graphOk_def by blast+
  note d' = fold_reduceInDegree_degree [OF F]
  from fold_reduceInDegree_queue [OF F] obtain news where news: "q' = q @ news" "distinct news"
    "set news = {t \<in> set ?L. 1 \<le> degree m t \<and> degree m t \<le> int (count_list ?L t)}"
    by blast
  have split: "degree m t
      = int (length (filter (\<lambda>d. d \<notin> set (result @ [current])) (deps t))) + int (count_list ?L t)"
    if "t \<in> K" for t
    using deg [OF that] filter_insert_count [OF cnr, of "deps t"] cnt [OF that] by simp
  have newsK: "set news \<subseteq> K" using news(3) LK by blast
  have disj: "set news \<inter> ?old = {}"
  proof -
    have "t \<notin> ?old" if "t \<in> set news" for t
    proof -
      from that have "t \<in> K" "1 \<le> degree m t" using newsK news(3) by auto
      then show ?thesis using mem [of t] by auto
    qed
    then show ?thesis by blast
  qed
  have a1: "distinct ((result @ [current]) @ q')"
    using dist news(1,2) disj by auto
  have a2: "set ((result @ [current]) @ q') \<subseteq> K"
    using sub newsK news(1) by auto
  have b: "degree m' t = int (length (filter (\<lambda>d. d \<notin> set (result @ [current])) (deps t)))"
    if "t \<in> K" for t
    using d' [of t] split [OF that] by simp
  have c: "t \<in> set ((result @ [current]) @ q') \<longleftrightarrow> degree m' t = 0" if tK: "t \<in> K" for t
  proof
    assume "t \<in> set ((result @ [current]) @ q')"
    then consider "t \<in> ?old" | "t \<in> set news" using news(1) by auto
    then show "degree m' t = 0"
    proof cases
      case 1
      then have "degree m t = 0" using mem [OF tK] by simp
      then show ?thesis using split [OF tK] d' [of t] by simp
    next
      case 2
      then have "degree m t \<le> int (count_list ?L t)" using news(3) by simp
      then show ?thesis using split [OF tK] d' [of t] by simp
    qed
  next
    assume z: "degree m' t = 0"
    then have e: "degree m t = int (count_list ?L t)" using d' [of t] by simp
    show "t \<in> set ((result @ [current]) @ q')"
    proof (cases "degree m t = 0")
      case True
      then have "t \<in> ?old" using mem [OF tK] by simp
      then show ?thesis using news(1) by auto
    next
      case False
      then have "0 < count_list ?L t" using e by simp
      then have "t \<in> set ?L" using count_list_0_iff [of ?L t] by simp
      then have "t \<in> set news" using news(3) e False by simp
      then show ?thesis using news(1) by simp
    qed
  qed
  have d: "set (deps ((result @ [current]) ! i)) \<subseteq> set (take i (result @ [current]))"
    if "i < length (result @ [current])" for i
  proof (cases "i < length result")
    case True
    then show ?thesis using topo [OF True] by (simp add: nth_append)
  next
    case False
    with that have i: "i = length result" by simp
    have "degree m current = 0" using mem [OF cK] by simp
    then have "filter (\<lambda>d. d \<notin> set result) (deps current) = []" using deg [OF cK] by simp
    then have "set (deps current) \<subseteq> set result" by (auto simp: filter_empty_conv)
    then show ?thesis using i by simp
  qed
  show ?thesis
    unfolding kahnInv_def using a1 a2 b c d by blast
qed

lemma kahnLoop_inv:
  "graphOk K deps dps \<Longrightarrow> kahnInv K deps m q r \<Longrightarrow>
   \<exists>m'. kahnInv K deps m' [] (kahnLoop dps m q r)"
proof (induction dps m q r rule: kahnLoop.induct)
  case (1 dps inDegree result)
  then show ?case by auto
next
  case (2 dps inDegree current queue result)
  obtain m' q' where F: "fold reduceInDegree (lookupList dps current) (inDegree, queue) = (m', q')"
    by (cases "fold reduceInDegree (lookupList dps current) (inDegree, queue)") auto
  have "kahnInv K deps m' q' (result @ [current])"
    using kahn_step [OF "2.prems"(1) "2.prems"(2) F] .
  from "2.IH" [OF F [symmetric] "2.prems"(1) this] show ?case
    using F by simp
qed

subsection \<open>The result of the topological sort\<close>

lemma topologicalSort_kahnResult:
  "topologicalSort sch c =
     (if length (kahnResult sch c) \<noteq> length (typesCtors c)
      then Err (CircularDependency (length (kahnResult sch c)) (length (typesCtors c)))
      else Ok (kahnResult sch c))"
  by (simp add: topologicalSort_def kahnResult_def initialQueue_def initialInDegree_def Let_def)

lemma graphOk_rebuildGraph:
  assumes "wf_container c" and "valid_schedule sch"
  shows "graphOk (set (keys (typesCtors c))) (depsOf c) (dependents (graph (rebuildGraph sch c)))"
  unfolding graphOk_def
  using rebuildGraph_facts(4,5) [OF assms] by simp

lemma initialInDegree_facts:
  assumes wf: "wf_container c" and sch: "valid_schedule sch"
  defines "m \<equiv> initialInDegree sch (rebuildGraph sch c)"
  shows "set (keys m) = set (keys (typesCtors c))" and "distinct (keys m)"
    and "t \<in> set (keys (typesCtors c)) \<Longrightarrow> degree m t = int (length (depsOf c t))"
proof -
  let ?g = "graph (rebuildGraph sch c)"
  let ?ks = "ordDependencies sch (keys (dependencies ?g))"
  note gf = rebuildGraph_facts [OF wf sch]
  have p: "permutes (ordDependencies sch)" using sch by (simp add: valid_schedule_def)
  have ks: "set ?ks = set (keys (typesCtors c))"
    using permutesD(2) [OF p gf(3)] gf(2) by simp
  have reg: "set (typeRegistry c) = set (keys (typesCtors c))"
    using wf by (simp add: wf_container_def)
  show "set (keys m) = set (keys (typesCtors c))"
    unfolding m_def initialInDegree_def fold_store_keys
    by (simp add: ks reg rebuildGraph_fields)
  show "distinct (keys m)"
    unfolding m_def initialInDegree_def
    by (intro fold_store_distinct) simp
  show "degree m t = int (length (depsOf c t))" if "t \<in> set (keys (typesCtors c))"
    unfolding m_def initialInDegree_def degree_def fold_store_lookup
    using that ks gf(1) by simp
qed

lemma kahnInv_initial:
  assumes wf: "wf_container c" and sch: "valid_schedule sch"
  shows "kahnInv (set (keys (typesCtors c))) (depsOf c)
           (initialInDegree sch (rebuildGraph sch c)) (initialQueue sch (rebuildGraph sch c)) []"
proof -
  let ?m = "initialInDegree sch (rebuildGraph sch c)"
  let ?K = "set (keys (typesCtors c))"
  note mf = initialInDegree_facts [OF wf sch]
  have p: "permutes (ordInDegree sch)" using sch by (simp add: valid_schedule_def)
  note ord = permutesD [OF p mf(2)]
  have q: "initialQueue sch (rebuildGraph sch c)
      = filter (\<lambda>typ. degree ?m typ = 0) (ordInDegree sch (keys ?m))"
    by (simp add: initialQueue_def)
  have "distinct (initialQueue sch (rebuildGraph sch c))"
    unfolding q using ord(1) by simp
  moreover have "set (initialQueue sch (rebuildGraph sch c)) = {t \<in> ?K. degree ?m t = 0}"
    unfolding q using ord(2) mf(1) by auto
  ultimately show ?thesis
    unfolding kahnInv_def using mf(3) by auto
qed

lemma kahnResult_facts:
  assumes wf: "wf_container c" and sch: "valid_schedule sch"
  defines "res \<equiv> kahnResult sch (rebuildGraph sch c)"
  shows "distinct res" and "set res \<subseteq> set (keys (typesCtors c))"
    and "i < length res \<Longrightarrow> set (depsOf c (res ! i)) \<subseteq> set (take i res)"
    and "t \<in> set (keys (typesCtors c)) \<Longrightarrow> t \<notin> set res \<Longrightarrow> \<exists>d \<in> set (depsOf c t). d \<notin> set res"
proof -
  from kahnLoop_inv [OF graphOk_rebuildGraph [OF wf sch] kahnInv_initial [OF wf sch]]
  obtain m' where inv: "kahnInv (set (keys (typesCtors c))) (depsOf c) m' [] res"
    unfolding res_def kahnResult_def by blast
  show "distinct res" using inv unfolding kahnInv_def by simp
  show "set res \<subseteq> set (keys (typesCtors c))" using inv unfolding kahnInv_def by simp
  show "set (depsOf c (res ! i)) \<subseteq> set (take i res)" if "i < length res"
    using inv that unfolding kahnInv_def by blast
  show "\<exists>d \<in> set (depsOf c t). d \<notin> set res" if t: "t \<in> set (keys (typesCtors c))" "t \<notin> set res"
  proof -
    from inv t have "degree m' t \<noteq> 0" unfolding kahnInv_def by simp
    moreover from inv t have "degree m' t = int (length (filter (\<lambda>d. d \<notin> set res) (depsOf c t)))"
      unfolding kahnInv_def by blast
    ultimately have "filter (\<lambda>d. d \<notin> set res) (depsOf c t) \<noteq> []" by auto
    then show ?thesis by (auto simp: filter_empty_conv)
  qed
qed

lemma length_typesCtors: "length (typesCtors c) = length (keys (typesCtors c))"
  by (simp add: keys_def)

lemma kahnResult_complete_iff:
  assumes wf: "wf_container c" and sch: "valid_schedule sch"
  shows "length (kahnResult sch (rebuildGraph sch c)) = length (typesCtors c)
     \<longleftrightarrow> set (kahnResult sch (rebuildGraph sch c)) = set (keys (typesCtors c))"
proof -
  let ?res = "kahnResult sch (rebuildGraph sch c)"
  let ?K = "keys (typesCtors c)"
  note rf = kahnResult_facts(1,2) [OF wf sch]
  have dK: "distinct ?K" using wf by (simp add: wf_container_def)
  have cr: "card (set ?res) = length ?res" using rf(1) by (simp add: distinct_card)
  have cK: "card (set ?K) = length ?K" using dK by (simp add: distinct_card)
  show ?thesis
  proof
    assume "length ?res = length (typesCtors c)"
    then have "card (set ?res) = card (set ?K)" using cr cK by (simp add: length_typesCtors)
    then show "set ?res = set ?K" using rf(2) by (simp add: card_subset_eq)
  next
    assume "set ?res = set ?K"
    then show "length ?res = length (typesCtors c)" using cr cK by (simp add: length_typesCtors)
  qed
qed

lemma kahnResult_length_le:
  assumes wf: "wf_container c" and sch: "valid_schedule sch"
  shows "length (kahnResult sch (rebuildGraph sch c)) \<le> length (typesCtors c)"
proof -
  let ?res = "kahnResult sch (rebuildGraph sch c)"
  note rf = kahnResult_facts(1,2) [OF wf sch]
  have "card (set ?res) \<le> card (set (keys (typesCtors c)))"
    using rf(2) by (simp add: card_mono)
  moreover have "card (set ?res) = length ?res" using rf(1) by (simp add: distinct_card)
  moreover have "card (set (keys (typesCtors c))) \<le> length (keys (typesCtors c))"
    by (rule card_length)
  ultimately show ?thesis by (simp add: length_typesCtors)
qed

subsection \<open>Sorting and acyclicity\<close>

lemma position_nth:
  assumes "distinct xs" and "i < length xs"
  shows "length (takeWhile (\<lambda>y. y \<noteq> xs ! i) xs) = i"
proof -
  have "takeWhile (\<lambda>y. y \<noteq> xs ! i) xs = take i xs"
  proof (rule takeWhile_eq_take_P_nth)
    fix j assume "j < i" "j < length xs"
    then show "xs ! j \<noteq> xs ! i"
      using assms by (simp add: nth_eq_iff_index_eq)
  next
    show "\<not> xs ! i \<noteq> xs ! i" by simp
  qed
  then show ?thesis using assms(2) by simp
qed

lemma sorted_acyclic:
  assumes dist: "distinct res"
    and topo: "\<And>i. i < length res \<Longrightarrow> set (deps (res ! i)) \<subseteq> set (take i res)"
    and out: "\<And>t. t \<notin> set res \<Longrightarrow> deps t = []"
  shows "acyclic {(d, t). d \<in> set (deps t)}"
proof -
  let ?pos = "\<lambda>x. length (takeWhile (\<lambda>y. y \<noteq> x) res)"
  have "{(d, t). d \<in> set (deps t)} \<subseteq> measure ?pos"
  proof clarify
    fix d t assume d: "d \<in> set (deps t)"
    then have "t \<in> set res" using out by fastforce
    then obtain i where i: "i < length res" "res ! i = t" by (auto simp: in_set_conv_nth)
    with topo [of i] d have "d \<in> set (take i res)" by auto
    then obtain j where j: "j < i" "res ! j = d"
      using i(1) by (auto simp: in_set_conv_nth)
    have "?pos d = j" using position_nth [OF dist, of j] i(1) j by auto
    moreover have "?pos t = i" using position_nth [OF dist i(1)] i(2) by simp
    ultimately show "(d, t) \<in> measure ?pos" using j(1) by simp
  qed
  then have "wf {(d, t). d \<in> set (deps t)}"
    using wf_subset [OF wf_measure] by blast
  then show ?thesis by (rule wf_acyclic)
qed

lemma depsOf_unregistered: "t \<notin> set (keys (typesCtors c)) \<Longrightarrow> depsOf c t = []"
  using lookup_None_iff [of "typesCtors c" t] by (simp add: depsOf_def)

lemma kahnResult_sound:
  assumes wf: "wf_container c" and sch: "valid_schedule sch"
    and all: "set (kahnResult sch (rebuildGraph sch c)) = set (keys (typesCtors c))"
  shows "acyclic (dependsOn c)"
proof -
  note rf = kahnResult_facts [OF wf sch]
  have "acyclic {(d, t). d \<in> set (depsOf c t)}"
  proof (rule sorted_acyclic [of "kahnResult sch (rebuildGraph sch c)"])
    show "distinct (kahnResult sch (rebuildGraph sch c))" by (rule rf(1))
  next
    fix i assume "i < length (kahnResult sch (rebuildGraph sch c))"
    then show "set (depsOf c (kahnResult sch (rebuildGraph sch c) ! i))
        \<subseteq> set (take i (kahnResult sch (rebuildGraph sch c)))"
      by (rule rf(3))
  next
    fix t assume "t \<notin> set (kahnResult sch (rebuildGraph sch c))"
    then show "depsOf c t = []" using all depsOf_unregistered by blast
  qed
  then show ?thesis by (simp add: dependsOn_def)
qed

lemma kahnResult_complete:
  assumes wf: "wf_container c" and sch: "valid_schedule sch"
    and valid: "missingTypes c = {}" and acyc: "acyclic (dependsOn c)"
  shows "set (kahnResult sch (rebuildGraph sch c)) = set (keys (typesCtors c))"
proof (rule ccontr)
  let ?res = "kahnResult sch (rebuildGraph sch c)"
  let ?K = "set (keys (typesCtors c))"
  let ?r = "dependsOn c \<inter> (?K \<times> ?K)"
  note rf = kahnResult_facts [OF wf sch]
  assume "set ?res \<noteq> ?K"
  then obtain u where u: "u \<in> ?K - set ?res" using rf(2) by blast
  have "finite ?r" by simp
  moreover have "acyclic ?r" using acyc by (rule acyclic_subset) simp
  ultimately have "wf ?r" by (rule finite_acyclic_wf)
  from wfE_min [OF this u] obtain z where z: "z \<in> ?K - set ?res"
    and min: "\<And>y. (y, z) \<in> ?r \<Longrightarrow> y \<notin> ?K - set ?res"
    by blast
  from rf(4) [of z] z obtain d where d: "d \<in> set (depsOf c z)" "d \<notin> set ?res" by blast
  have "d \<in> ?K" using validated_depsOf [OF wf valid, of z] d(1) by blast
  then have "(d, z) \<in> ?r" using d(1) z by (simp add: dependsOn_def)
  from min [OF this] show False using \<open>d \<in> ?K\<close> d(2) by simp
qed

lemma topologicalSort_Ok:
  assumes wf: "wf_container c" and sch: "valid_schedule sch"
    and ok: "topologicalSort sch (rebuildGraph sch c) = Ok sortedTypes"
  shows "distinct sortedTypes" and "set sortedTypes = set (keys (typesCtors c))"
    and "i < length sortedTypes \<Longrightarrow> set (depsOf c (sortedTypes ! i)) \<subseteq> set (take i sortedTypes)"
    and "acyclic (dependsOn c)"
proof -
  from ok have s: "sortedTypes = kahnResult sch (rebuildGraph sch c)"
    and len: "length (kahnResult sch (rebuildGraph sch c)) = length (typesCtors c)"
    by (auto simp: topologicalSort_kahnResult rebuildGraph_fields split: if_splits)
  note rf = kahnResult_facts [OF wf sch]
  show "distinct sortedTypes" unfolding s by (rule rf(1))
  show all: "set sortedTypes = set (keys (typesCtors c))"
    unfolding s using kahnResult_complete_iff [OF wf sch] len by simp
  show "set (depsOf c (sortedTypes ! i)) \<subseteq> set (take i sortedTypes)" if "i < length sortedTypes"
    using that unfolding s by (rule rf(3))
  show "acyclic (dependsOn c)"
    using kahnResult_sound [OF wf sch] all unfolding s by simp
qed

lemma topologicalSort_Err:
  assumes wf: "wf_container c" and sch: "valid_schedule sch"
    and err: "topologicalSort sch (rebuildGraph sch c) = Err e"
  shows "\<exists>n. e = CircularDependency n (length (typesCtors c)) \<and> n < length (typesCtors c)"
  using err kahnResult_length_le [OF wf sch]
  by (auto simp: topologicalSort_kahnResult rebuildGraph_fields split: if_splits)

lemma topologicalSort_cyclic:
  assumes wf: "wf_container c" and sch: "valid_schedule sch"
    and cyc: "\<not> acyclic (dependsOn c)"
  shows "\<exists>n. topologicalSort sch (rebuildGraph sch c)
            = Err (CircularDependency n (length (typesCtors c))) \<and> n < length (typesCtors c)"
proof (cases "topologicalSort sch (rebuildGraph sch c) :: ('a error, rtype list) result")
  case (Ok sortedTypes)
  then show ?thesis using topologicalSort_Ok(4) [OF wf sch] cyc by blast
next
  case (Err e)
  then show ?thesis using topologicalSort_Err [OF wf sch] by blast
next
  case (Panic p)
  then show ?thesis using topologicalSort_not_Panic by blast
qed

lemma topologicalSort_acyclic:
  assumes wf: "wf_container c" and sch: "valid_schedule sch"
    and valid: "missingTypes c = {}" and acyc: "acyclic (dependsOn c)"
  shows "topologicalSort sch (rebuildGraph sch c) = Ok (kahnResult sch (rebuildGraph sch c))"
  using kahnResult_complete [OF assms] kahnResult_complete_iff [OF wf sch]
  by (simp add: topologicalSort_kahnResult rebuildGraph_fields)

subsection \<open>Facts used to instantiate the theorems\<close>

lemma missingTypes_missingList: "missingTypes c = set (missingList c)"
  by (auto simp: missingTypes_def missingList_def requiredSet_def requiredList_def)

lemma missingTypes_rebuildGraph: "missingTypes (rebuildGraph sch c) = missingTypes c"
  by (simp add: missingTypes_def requiredSet_def rebuildGraph_fields)

lemma reachable_fold_Provide:
  "reachable sat c \<Longrightarrow> reachable sat (fold (\<lambda>f c. snd (Provide sat (AFunc f) c)) fs c)"
proof (induction fs arbitrary: c)
  case Nil
  then show ?case by simp
next
  case (Cons f fs)
  have "reachable sat (snd (Provide sat (AFunc f) c))"
    using reachable_Provide [OF Cons.prems, of "AFunc f" "fst (Provide sat (AFunc f) c)"
        "snd (Provide sat (AFunc f) c)"] by simp
  from Cons.IH [OF this] show ?case by simp
qed

lemma reachable_provideAll: "reachable sat (provideAll sat fs)"
  unfolding provideAll_def by (rule reachable_fold_Provide) (rule reachable_new)

lemma valid_idSchedule: "valid_schedule idSchedule"
  by (simp add: valid_schedule_def idSchedule_def permutes_def)

lemma valid_revSchedule: "valid_schedule revSchedule"
  by (simp add: valid_schedule_def revSchedule_def permutes_def)

subsection \<open>One producer invocation\<close>

lemma Implements_errorType: "Implements sat t errorType = Inr (sat t errorType)"
  by (simp add: Implements_def errorType_def)

lemma length_CallFn: "length (CallFn f w as) = length (fnOut f)"
  by (simp add: CallFn_def)

lemma prepareArgs_Ok_D:
  "prepareArgs inst sargs typ is = Ok as \<Longrightarrow>
   as = map (\<lambda>i. the (lookup inst (sargs ! i))) is \<and>
   (\<forall>i \<in> set is. i < length sargs \<and> lookup inst (sargs ! i) \<noteq> None)"
  by (induction "is" arbitrary: as)
    (auto simp: Let_def split: if_splits option.splits result.splits)

lemma prepareArgs_Err:
  "prepareArgs inst sargs typ is = Err e \<Longrightarrow>
   \<exists>i \<in> set is. i < length sargs \<and> lookup inst (sargs ! i) = None \<and>
      e = DependencyNotResolved (sargs ! i) typ"
  by (induction "is")
    (auto simp: Let_def split: if_splits option.splits result.splits)

lemma prepareArgs_Panic:
  "prepareArgs inst sargs typ is = Panic p \<Longrightarrow> \<exists>i \<in> set is. length sargs \<le> i"
  by (induction "is")
    (auto simp: Let_def split: if_splits option.splits result.splits)

text \<open>What one producer invocation does to the instance cache.\<close>

text \<open>
  A producer invocation as \<^verbatim>\<open>resolveInstance\<close> makes it: through the constructor that
  \<open>typesCtors\<close> holds for the type, with the cached instances of its recorded inputs as
  arguments.
\<close>

lemma resolveInstance_cases [consumes 2, case_names unregistered unresolved failed crashed built]:
  assumes R: "resolveInstance sat typ (c, w) = (r, c', w')"
    and wf: "wf_container c"
  obtains
    (unregistered) "lookup (typesCtors c) typ = None" "r = Err (NoConstructorRegistered typ)"
      "c' = c" "w' = w"
  | (unresolved) d where "d \<in> set (depsOf c typ)" "lookup (instances c) d = None"
      "r = Err (DependencyNotResolved d typ)" "c' = c" "w' = w"
  | (failed) e where "validCall c w (instances c) e" "callTyp e = typ" "w' = w @ [e]" "c' = c"
      "signalsFailure sat (callResults e)" "r = Err (ProducerError (last (callResults e)))"
  | (crashed) e where "validCall c w (instances c) e" "callTyp e = typ" "w' = w @ [e]" "c' = c"
      "crashes sat (callResults e)" "r = Panic IsNilOfValueKind"
  | (built) e where "validCall c w (instances c) e" "callTyp e = typ" "w' = w @ [e]"
      "c' = c\<lparr>instances := store typ (callResults e ! 0) (instances c)\<rparr>"
      "\<not> stops sat (callResults e)" "callResults e \<noteq> []" "r = Ok ()"
proof (cases "lookup (typesCtors c) typ")
  case None
  with R show ?thesis by (intro unregistered) (auto simp: resolveInstance_def)
next
  case (Some p)
  let ?ctor = "constructors c ! p"
  let ?sargs = "args (signature ?ctor)"
  have p: "p < length (constructors c)" using wf Some by (simp add: wf_container_def)
  then have mem: "?ctor \<in> set (constructors c)" by simp
  have len: "length (fnIn (fn ?ctor)) = length ?sargs" and out: "0 < length (fnOut (fn ?ctor))"
    using wf mem by (auto simp: wf_container_def)
  have deps: "depsOf c typ = ?sargs" using Some by (simp add: depsOf_def)
  show ?thesis
  proof (cases "prepareArgs (instances c) ?sargs typ [0..<length (fnIn (fn ?ctor))]")
    case (Panic pn)
    from prepareArgs_Panic [OF this] len show ?thesis by auto
  next
    case (Err e)
    from prepareArgs_Err [OF this] obtain i where i: "i < length ?sargs"
      "lookup (instances c) (?sargs ! i) = None" "e = DependencyNotResolved (?sargs ! i) typ"
      by auto
    have "?sargs ! i \<in> set (depsOf c typ)" using i(1) deps by simp
    moreover have "r = Err e \<and> c' = c \<and> w' = w"
      using R Some Err by (simp add: resolveInstance_def Let_def)
    ultimately show ?thesis using i(2,3) by (intro unresolved [of "?sargs ! i"]) auto
  next
    case (Ok as)
    from prepareArgs_Ok_D [OF this] len
    have as: "as = map (\<lambda>i. the (lookup (instances c) (?sargs ! i))) [0..<length ?sargs]"
      and present: "\<forall>i < length ?sargs. lookup (instances c) (?sargs ! i) \<noteq> None"
      by auto
    have as': "as = map (\<lambda>d. the (lookup (instances c) d)) ?sargs"
      unfolding as by (rule nth_equalityI) auto
    have present': "list_all (\<lambda>d. lookup (instances c) d \<noteq> None) ?sargs"
      using present by (auto simp: list_all_length)
    let ?results = "CallFn (fn ?ctor) w as"
    let ?e = "Call typ p as ?results"
    have v: "validCall c w (instances c) ?e"
      using Some as' present' by (simp add: validCall_def deps)
    have ne: "?results \<noteq> []" using out length_CallFn [of "fn ?ctor" w as] by auto
    have nil: "IsNil (last ?results) = Inl IsNilOfValueKind \<or> IsNil (last ?results) = Inr False
        \<or> IsNil (last ?results) = Inr True"
      by (auto simp: IsNil_def)
    consider (f) "signalsFailure sat ?results" | (c) "crashes sat ?results"
      | (b) "\<not> stops sat ?results"
      by (auto simp: stops_def)
    then show ?thesis
    proof cases
      case f
      have "r = Err (ProducerError (last ?results)) \<and> c' = c \<and> w' = w @ [?e]"
        using R Some Ok f
        by (auto simp: resolveInstance_def Let_def Implements_errorType signalsFailure_def
            split: if_splits)
      with v f show ?thesis by (intro failed [of ?e]) auto
    next
      case c
      have "r = Panic IsNilOfValueKind \<and> c' = c \<and> w' = w @ [?e]"
        using R Some Ok c
        by (auto simp: resolveInstance_def Let_def Implements_errorType crashes_def
            split: if_splits)
      with v c show ?thesis by (intro crashed [of ?e]) auto
    next
      case b
      have "r = Ok () \<and> c' = c\<lparr>instances := store typ (?results ! 0) (instances c)\<rparr> \<and> w' = w @ [?e]"
        using R Some Ok b ne nil
        by (auto simp: resolveInstance_def Let_def Implements_errorType signalsFailure_def
            crashes_def stops_def split: if_splits)
      with v b ne show ?thesis by (intro built [of ?e]) auto
    qed
  qed
qed

subsection \<open>The instantiation loop\<close>

text \<open>
  The invocations a run of the instantiation loop over \<open>ts\<close> has added to the trace:
  one per type, in the order of \<open>ts\<close>, each made as \<^verbatim>\<open>resolveInstance\<close> makes it from
  the cache the earlier ones left, and none after one that signalled failure.
\<close>

text \<open>How the loop ended, given the invocations it made.\<close>

lemma replay_Nil [simp]: "replay sat [] inst = inst"
  by (simp add: replay_def)

lemma replay_Cons [simp]: "replay sat (e # es) inst = replay sat es (applyCall sat e inst)"
  by (simp add: replay_def)

lemma depsOf_instances [simp]: "depsOf (c\<lparr>instances := i\<rparr>) = depsOf c"
  by (intro ext) (simp add: depsOf_def split: option.splits)

lemma validCall_instances [simp]: "validCall (c\<lparr>instances := i\<rparr>) = validCall c"
  by (intro ext) (simp add: validCall_def)

lemma wf_instances [simp]: "wf_container (c\<lparr>instances := i\<rparr>) = wf_container c"
  by (simp add: wf_container_def)

lemma traceOk_Nil: "traceOk sat c w inst ts []"
  by (simp add: traceOk_def)

lemma traceOk_failed:
  assumes "validCall c w inst e" and "callTyp e = t" and "stops sat (callResults e)"
  shows "traceOk sat c w inst (t # rest) [e]"
proof -
  have "callResults e \<noteq> []"
    using assms(3) by (auto simp: stops_def signalsFailure_def crashes_def)
  then show ?thesis using assms by (simp add: traceOk_def)
qed

lemma traceOk_Cons:
  assumes v: "validCall c w inst e" and t: "callTyp e = t"
    and ok: "\<not> stops sat (callResults e)" and ne: "callResults e \<noteq> []"
    and rest: "traceOk sat c (w @ [e]) (applyCall sat e inst) rest new'"
  shows "traceOk sat c w inst (t # rest) (e # new')"
  unfolding traceOk_def
proof (intro conjI allI impI)
  show "map callTyp (e # new') = take (length (e # new')) (t # rest)"
    using rest t by (simp add: traceOk_def)
next
  fix k assume k: "k < length (e # new')"
  show "validCall c (w @ take k (e # new')) (replay sat (take k (e # new')) inst) ((e # new') ! k)"
  proof (cases k)
    case 0
    then show ?thesis using v by simp
  next
    case (Suc j)
    with k rest show ?thesis by (simp add: traceOk_def)
  qed
  show "callResults ((e # new') ! k) \<noteq> []"
  proof (cases k)
    case 0
    then show ?thesis using ne by simp
  next
    case (Suc j)
    with k rest show ?thesis by (simp add: traceOk_def)
  qed
  assume f: "stops sat (callResults ((e # new') ! k))"
  show "Suc k = length (e # new')"
  proof (cases k)
    case 0
    then show ?thesis using f ok by simp
  next
    case (Suc j)
    with k rest f show ?thesis by (simp add: traceOk_def)
  qed
qed

lemma outcomeOk_instances [simp]:
  "outcomeOk sat (c\<lparr>instances := i\<rparr>) = outcomeOk sat c"
  by (intro ext) (simp add: outcomeOk_def split: result.splits)

lemma outcomeOk_Cons:
  assumes ok: "\<not> stops sat (callResults e)"
    and rest: "outcomeOk sat c (applyCall sat e inst) rest new' r"
  shows "outcomeOk sat c inst (t # rest) (e # new') r"
proof (cases r)
  case (Ok u)
  with rest ok show ?thesis by (simp add: outcomeOk_def)
next
  case (Err x)
  with rest ok show ?thesis
    by (auto simp: outcomeOk_def)
next
  case (Panic p)
  with rest show ?thesis by (auto simp: outcomeOk_def)
qed

lemma resolveAll_trace:
  assumes "wf_container c" and "resolveAll sat ts (c, w) = (r, c', w')"
  shows "\<exists>new. w' = w @ new \<and> c' = c\<lparr>instances := replay sat new (instances c)\<rparr> \<and>
           traceOk sat c w (instances c) ts new \<and> outcomeOk sat c (instances c) ts new r"
  using assms
proof (induction ts arbitrary: c w)
  case Nil
  then have "w' = w @ [] \<and> c' = c\<lparr>instances := replay sat [] (instances c)\<rparr> \<and>
           traceOk sat c w (instances c) [] [] \<and> outcomeOk sat c (instances c) [] [] r"
    by (auto simp: traceOk_Nil outcomeOk_def)
  then show ?case by blast
next
  case (Cons t rest)
  obtain r1 c1 w1 where ri: "resolveInstance sat t (c, w) = (r1, c1, w1)"
    by (cases "resolveInstance sat t (c, w)") auto
  from ri Cons.prems(1) show ?case
  proof (cases rule: resolveInstance_cases)
    case unregistered
    with Cons.prems(2) ri have "r = Err (FailedToResolve t (NoConstructorRegistered t))"
      "c' = c" "w' = w" by auto
    with unregistered(1)
    have "w' = w @ [] \<and> c' = c\<lparr>instances := replay sat [] (instances c)\<rparr> \<and>
           traceOk sat c w (instances c) (t # rest) [] \<and>
           outcomeOk sat c (instances c) (t # rest) [] r"
      by (simp add: traceOk_Nil outcomeOk_def)
    then show ?thesis by blast
  next
    case (unresolved d)
    with Cons.prems(2) ri have "r = Err (FailedToResolve t (DependencyNotResolved d t))"
      "c' = c" "w' = w" by auto
    with unresolved(1,2)
    have "w' = w @ [] \<and> c' = c\<lparr>instances := replay sat [] (instances c)\<rparr> \<and>
           traceOk sat c w (instances c) (t # rest) [] \<and>
           outcomeOk sat c (instances c) (t # rest) [] r"
      by (auto simp: traceOk_Nil outcomeOk_def list_ex_iff)
    then show ?thesis by blast
  next
    case (failed e)
    have st: "stops sat (callResults e)" using failed(5) by (simp add: stops_def)
    from failed Cons.prems(2) ri
    have "r = Err (FailedToResolve t (ProducerError (last (callResults e))))"
      "c' = c" "w' = w @ [e]" by auto
    moreover have "replay sat [e] (instances c) = instances c"
      using st by (simp add: applyCall_def)
    moreover have "traceOk sat c w (instances c) (t # rest) [e]"
      using failed(1,2) st by (rule traceOk_failed)
    moreover have "outcomeOk sat c (instances c) (t # rest) [e]
        (Err (FailedToResolve t (ProducerError (last (callResults e)))))"
      using failed(2,5) by (simp add: outcomeOk_def)
    ultimately have "w' = w @ [e] \<and> c' = c\<lparr>instances := replay sat [e] (instances c)\<rparr> \<and>
           traceOk sat c w (instances c) (t # rest) [e] \<and>
           outcomeOk sat c (instances c) (t # rest) [e] r"
      by simp
    then show ?thesis by blast
  next
    case (crashed e)
    have st: "stops sat (callResults e)" using crashed(5) by (simp add: stops_def)
    from crashed Cons.prems(2) ri
    have "r = Panic IsNilOfValueKind" "c' = c" "w' = w @ [e]" by auto
    moreover have "replay sat [e] (instances c) = instances c"
      using st by (simp add: applyCall_def)
    moreover have "traceOk sat c w (instances c) (t # rest) [e]"
      using crashed(1,2) st by (rule traceOk_failed)
    moreover have "outcomeOk sat c (instances c) (t # rest) [e] (Panic IsNilOfValueKind)"
      using crashed(5) by (simp add: outcomeOk_def)
    ultimately have "w' = w @ [e] \<and> c' = c\<lparr>instances := replay sat [e] (instances c)\<rparr> \<and>
           traceOk sat c w (instances c) (t # rest) [e] \<and>
           outcomeOk sat c (instances c) (t # rest) [e] r"
      by simp
    then show ?thesis by blast
  next
    case (built e)
    have a: "applyCall sat e (instances c) = store t (callResults e ! 0) (instances c)"
      using built(2,5,6) by (simp add: applyCall_def)
    have c1: "c1 = c\<lparr>instances := applyCall sat e (instances c)\<rparr>"
      using built(4) a by simp
    have wf1: "wf_container c1" using Cons.prems(1) c1 by simp
    have ra: "resolveAll sat rest (c1, w1) = (r, c', w')"
      using Cons.prems(2) ri built(7) by simp
    from Cons.IH [OF wf1 ra] obtain new' where new': "w' = w1 @ new'"
      "c' = c1\<lparr>instances := replay sat new' (instances c1)\<rparr>"
      "traceOk sat c1 w1 (instances c1) rest new'"
      "outcomeOk sat c1 (instances c1) rest new' r"
      by blast
    have i1: "instances c1 = applyCall sat e (instances c)" using c1 by simp
    have t1: "traceOk sat c (w @ [e]) (applyCall sat e (instances c)) rest new'"
      using new'(3) unfolding i1 built(3) by (simp add: traceOk_def c1)
    have o1: "outcomeOk sat c (applyCall sat e (instances c)) rest new' r"
      using new'(4) unfolding i1 by (simp add: c1)
    have "w' = w @ (e # new')" using new'(1) built(3) by simp
    moreover have "c' = c\<lparr>instances := replay sat (e # new') (instances c)\<rparr>"
      using new'(2) unfolding i1 by (simp add: c1)
    moreover have "traceOk sat c w (instances c) (t # rest) (e # new')"
      using traceOk_Cons [OF built(1,2,5,6) t1] .
    moreover have "outcomeOk sat c (instances c) (t # rest) (e # new') r"
      using outcomeOk_Cons [OF built(5) o1] .
    ultimately show ?thesis by blast
  qed
qed

subsection \<open>The cache after a run\<close>

lemma replay_append: "replay sat (xs @ ys) inst = replay sat ys (replay sat xs inst)"
  by (simp add: replay_def)

lemma applyCall_lookup:
  "lookup (applyCall sat e inst) d
     = (if d = callTyp e \<and> \<not> stops sat (callResults e) \<and> callResults e \<noteq> []
        then Some (callResults e ! 0) else lookup inst d)"
  by (simp add: applyCall_def lookup_store)

lemma replay_lookup_other:
  "d \<notin> callTyp ` set es \<Longrightarrow> lookup (replay sat es inst) d = lookup inst d"
  by (induction es arbitrary: inst) (auto simp: applyCall_lookup)

lemma replay_lookup_built:
  "distinct (map callTyp es) \<Longrightarrow> e \<in> set es \<Longrightarrow> \<not> stops sat (callResults e) \<Longrightarrow>
   callResults e \<noteq> [] \<Longrightarrow> lookup (replay sat es inst) (callTyp e) = Some (callResults e ! 0)"
proof (induction es arbitrary: inst)
  case Nil
  then show ?case by simp
next
  case (Cons a es)
  show ?case
  proof (cases "e \<in> set es")
    case True
    with Cons show ?thesis by simp
  next
    case False
    with Cons.prems have ea: "e = a" and nin: "callTyp a \<notin> callTyp ` set es" by auto
    show ?thesis
      using Cons.prems(3,4) unfolding ea replay_Cons replay_lookup_other [OF nin]
      by (simp add: applyCall_lookup)
  qed
qed

lemma replay_lookup_mono:
  "lookup inst d \<noteq> None \<Longrightarrow> lookup (replay sat es inst) d \<noteq> None"
  by (induction es arbitrary: inst) (auto simp: applyCall_lookup)

text \<open>
  What a run of the loop over a duplicate-free list of registered types, each after its
  recorded inputs, leaves behind: it ends normally with one invocation per type, or
  right after the invocation that signalled failure.
\<close>

lemma resolveAll_sorted:
  assumes wf: "wf_container c"
    and ra: "resolveAll sat ts (c, w) = (r, c', w')"
    and dist: "distinct ts"
    and reg: "set ts \<subseteq> set (keys (typesCtors c))"
    and topo: "\<And>i. i < length ts \<Longrightarrow> set (depsOf c (ts ! i)) \<subseteq> set (take i ts)"
  obtains new where "w' = w @ new" "c' = c\<lparr>instances := replay sat new (instances c)\<rparr>"
    "traceOk sat c w (instances c) ts new"
    "(r = Ok () \<and> map callTyp new = ts \<and> list_all (\<lambda>e. \<not> stops sat (callResults e)) new)
     \<or> (new \<noteq> [] \<and> signalsFailure sat (callResults (last new)) \<and>
        r = Err (FailedToResolve (callTyp (last new)) (ProducerError (last (callResults (last new))))))
     \<or> (new \<noteq> [] \<and> crashes sat (callResults (last new)) \<and> r = Panic IsNilOfValueKind)"
proof -
  from resolveAll_trace [OF wf ra] obtain new where new: "w' = w @ new"
    "c' = c\<lparr>instances := replay sat new (instances c)\<rparr>"
    "traceOk sat c w (instances c) ts new" "outcomeOk sat c (instances c) ts new r"
    by blast
  have types: "map callTyp new = take (length new) ts"
    using new(3) by (simp add: traceOk_def)
  have nonempty: "\<And>k. k < length new \<Longrightarrow> callResults (new ! k) \<noteq> []"
    using new(3) by (simp add: traceOk_def)
  have dnew: "distinct (map callTyp new)" unfolding types using dist by simp
  have out: "(r = Ok () \<and> map callTyp new = ts \<and> list_all (\<lambda>e. \<not> stops sat (callResults e)) new)
     \<or> (new \<noteq> [] \<and> signalsFailure sat (callResults (last new)) \<and>
        r = Err (FailedToResolve (callTyp (last new)) (ProducerError (last (callResults (last new))))))
     \<or> (new \<noteq> [] \<and> crashes sat (callResults (last new)) \<and> r = Panic IsNilOfValueKind)"
  proof (cases r)
    case (Panic p)
    with new(4) show ?thesis by (simp add: outcomeOk_def)
  next
    case (Ok u)
    with new(4) have "length new = length ts"
      "list_all (\<lambda>e. \<not> stops sat (callResults e)) new"
      by (auto simp: outcomeOk_def)
    with types Ok show ?thesis by simp
  next
    case (Err e)
    show ?thesis
    proof (rule ccontr)
      assume n: "\<not> ?thesis"
      let ?t = "ts ! length new"
      from new(4) Err n have lt: "length new < length ts"
        and good: "list_all (\<lambda>e. \<not> stops sat (callResults e)) new"
        and alt: "lookup (typesCtors c) ?t = None \<or>
          list_ex (\<lambda>d. lookup (replay sat new (instances c)) d = None \<and>
                e = FailedToResolve ?t (DependencyNotResolved d ?t)) (depsOf c ?t)"
        by (auto simp: outcomeOk_def)
      have "?t \<in> set (keys (typesCtors c))" using lt reg by auto
      then have "lookup (typesCtors c) ?t \<noteq> None" by (simp add: lookup_None_iff)
      with alt obtain d where d: "d \<in> set (depsOf c ?t)"
        "lookup (replay sat new (instances c)) d = None"
        by (auto simp: list_ex_iff)
      from topo [OF lt] d(1) have "d \<in> set (take (length new) ts)" by blast
      then have "d \<in> set (map callTyp new)" using types by simp
      then obtain e' where e': "e' \<in> set new" "callTyp e' = d" by auto
      then obtain k where k: "k < length new" "new ! k = e'" by (auto simp: in_set_conv_nth)
      have "\<not> stops sat (callResults e')" using good e'(1) by (simp add: list_all_iff)
      moreover have "callResults e' \<noteq> []" using nonempty [OF k(1)] k(2) by simp
      ultimately have "lookup (replay sat new (instances c)) (callTyp e') = Some (callResults e' ! 0)"
        using replay_lookup_built [OF dnew e'(1)] by blast
      with d(2) e'(2) show False by simp
    qed
  qed
  show thesis using that [OF new(1,2,3) out] .
qed

subsection \<open>The trace of a Resolve call\<close>

lemma validCall_rebuildGraph [simp]: "validCall (rebuildGraph sch c) = validCall c"
  by (intro ext) (simp add: validCall_def depsOf_rebuildGraph rebuildGraph_fields)

lemma traceOk_rebuildGraph [simp]: "traceOk sat (rebuildGraph sch c) = traceOk sat c"
  by (intro ext) (simp add: traceOk_def)

lemma Resolve_not_pointer:
  assumes "\<And>T. tgt \<noteq> TargetPtr T"
  shows "Resolve sat sch tgt (c, w) = (Err TargetMustBeNonNilPointer, c, w)"
  using assms by (cases tgt) (auto simp: Resolve_def)

lemma resolveInterfaces_keys:
  "resolveInterfaces sat c = (r, c1) \<Longrightarrow> keys (typesCtors c1) = keys (typesCtors c)"
  using resolveInterfaces_fields(1) [of sat c r c1] by simp

lemma Resolve_trace [consumes 3, case_names stopped instantiated]:
  assumes wf: "wf_container c" and sch: "valid_schedule sch"
    and R: "Resolve sat sch tgt (c, w) = (r, c', w')"
  obtains
    (stopped) "w' = w" "\<And>v. r \<noteq> Ok v" "instances c' = instances c"
      "typesCtors c' = typesCtors c"
      "\<And>T c1. tgt = TargetPtr T \<Longrightarrow> resolveInterfaces sat c = (Ok (), c1) \<Longrightarrow>
          missingTypes c1 = {} \<Longrightarrow> acyclic (dependsOn c1) \<Longrightarrow> False"
  | (instantiated) T c1 sortedTypes new where "tgt = TargetPtr T"
      "resolveInterfaces sat c = (Ok (), c1)" "missingTypes c1 = {}" "acyclic (dependsOn c1)"
      "distinct sortedTypes" "set sortedTypes = set (keys (typesCtors c))"
      "\<And>i. i < length sortedTypes \<Longrightarrow>
          set (depsOf c1 (sortedTypes ! i)) \<subseteq> set (take i sortedTypes)"
      "w' = w @ new" "c' = (rebuildGraph sch c1)\<lparr>instances := replay sat new (instances c)\<rparr>"
      "traceOk sat c1 w (instances c) sortedTypes new"
      "(map callTyp new = sortedTypes \<and> list_all (\<lambda>e. \<not> stops sat (callResults e)) new \<and>
        r = (case lookup (instances c') T of
               Some instance \<Rightarrow>
                 if AssignableTo sat (vType instance) T then Ok instance
                 else Err (NotAssignable (vType instance) T)
             | None \<Rightarrow> Err (NoInstanceFound T)))
       \<or> (new \<noteq> [] \<and> signalsFailure sat (callResults (last new)) \<and>
          r = Err (FailedToResolve (callTyp (last new))
                     (ProducerError (last (callResults (last new))))))
       \<or> (new \<noteq> [] \<and> crashes sat (callResults (last new)) \<and> r = Panic IsNilOfValueKind)"
proof (cases "\<exists>T. tgt = TargetPtr T")
  case False
  then have "Resolve sat sch tgt (c, w) = (Err TargetMustBeNonNilPointer, c, w)"
    by (intro Resolve_not_pointer) blast
  with R False show ?thesis by (intro stopped) auto
next
  case True
  then obtain T where T: "tgt = TargetPtr T" by blast
  from R [unfolded T] show ?thesis
  proof (cases rule: Resolve_cases)
    case (interfacePanic p)
    then show ?thesis using resolveInterfaces_fields(1,3) [OF interfacePanic(1)]
      by (intro stopped) auto
  next
    case (interfaceErr e)
    then show ?thesis using resolveInterfaces_fields(1,3) [OF interfaceErr(1)]
      by (intro stopped) auto
  next
    case (missing c1 e)
    have "missingTypes c1 \<noteq> {}"
      using validateDependencies_Ok_iff [OF sch, of "rebuildGraph sch c1" "()"] missing(2)
      by (simp add: missingTypes_rebuildGraph)
    with missing show ?thesis using resolveInterfaces_fields(1,3) [OF missing(1)]
      by (intro stopped) (auto simp: rebuildGraph_fields)
  next
    case (cycle c1 e)
    have wf1: "wf_container c1" using wf_resolveInterfaces [OF wf cycle(1)] .
    have "\<not> (missingTypes c1 = {} \<and> acyclic (dependsOn c1))"
      using topologicalSort_acyclic [OF wf1 sch] cycle(3) by auto
    with cycle show ?thesis using resolveInterfaces_fields(1,3) [OF cycle(1)]
      by (intro stopped) (auto simp: rebuildGraph_fields)
  next
    case (run c1 sortedTypes r3)
    let ?c2 = "rebuildGraph sch c1"
    have wf1: "wf_container c1" using wf_resolveInterfaces [OF wf run(1)] .
    have wf2: "wf_container ?c2" using wf_rebuildGraph [OF wf1] .
    note rf = resolveInterfaces_fields [OF run(1)]
    have m: "missingTypes c1 = {}"
      using validateDependencies_Ok_iff [OF sch, of ?c2 "()"] run(2)
      by (simp add: missingTypes_rebuildGraph)
    note ts = topologicalSort_Ok [OF wf1 sch run(3)]
    have reg: "set sortedTypes \<subseteq> set (keys (typesCtors ?c2))"
      using ts(2) by (simp add: rebuildGraph_fields)
    have topo: "\<And>i. i < length sortedTypes \<Longrightarrow>
        set (depsOf ?c2 (sortedTypes ! i)) \<subseteq> set (take i sortedTypes)"
      using ts(3) by (simp add: depsOf_rebuildGraph)
    from wf2 run(4) ts(1) reg topo obtain new where new: "w' = w @ new"
      "c' = ?c2\<lparr>instances := replay sat new (instances ?c2)\<rparr>"
      "traceOk sat ?c2 w (instances ?c2) sortedTypes new"
      "(r3 = Ok () \<and> map callTyp new = sortedTypes \<and>
          list_all (\<lambda>e. \<not> stops sat (callResults e)) new)
       \<or> (new \<noteq> [] \<and> signalsFailure sat (callResults (last new)) \<and>
          r3 = Err (FailedToResolve (callTyp (last new))
                      (ProducerError (last (callResults (last new))))))
       \<or> (new \<noteq> [] \<and> crashes sat (callResults (last new)) \<and> r3 = Panic IsNilOfValueKind)"
      by (rule resolveAll_sorted)
    have i2: "instances ?c2 = instances c" by (simp add: rebuildGraph_fields rf(3))
    have out: "(map callTyp new = sortedTypes \<and>
        list_all (\<lambda>e. \<not> stops sat (callResults e)) new \<and>
        r = (case lookup (instances c') T of
               Some instance \<Rightarrow>
                 if AssignableTo sat (vType instance) T then Ok instance
                 else Err (NotAssignable (vType instance) T)
             | None \<Rightarrow> Err (NoInstanceFound T)))
       \<or> (new \<noteq> [] \<and> signalsFailure sat (callResults (last new)) \<and>
          r = Err (FailedToResolve (callTyp (last new))
                     (ProducerError (last (callResults (last new))))))
       \<or> (new \<noteq> [] \<and> crashes sat (callResults (last new)) \<and> r = Panic IsNilOfValueKind)"
      using new(4) run(5) by auto
    have f6: "set sortedTypes = set (keys (typesCtors c))" using ts(2) rf(1) by simp
    have f7: "\<And>i. i < length sortedTypes \<Longrightarrow>
        set (depsOf c1 (sortedTypes ! i)) \<subseteq> set (take i sortedTypes)"
      using ts(3) .
    have f9: "c' = ?c2\<lparr>instances := replay sat new (instances c)\<rparr>"
      using new(2) unfolding i2 .
    have f10: "traceOk sat c1 w (instances c) sortedTypes new"
      using new(3) unfolding i2 by simp
    show ?thesis
      by (rule instantiated [OF T run(1) m ts(4) ts(1) f6 f7 new(1) f9 f10 out])
  qed
qed

lemma traceOk_nth:
  assumes "traceOk sat c w inst ts new" and "k < length new"
  shows "validCall c (w @ take k new) (replay sat (take k new) inst) (new ! k)"
    and "callResults (new ! k) \<noteq> []"
    and "stops sat (callResults (new ! k)) \<Longrightarrow> Suc k = length new"
    and "callTyp (new ! k) = ts ! k" and "k < length ts"
proof -
  from assms show "validCall c (w @ take k new) (replay sat (take k new) inst) (new ! k)"
    and "callResults (new ! k) \<noteq> []"
    and "stops sat (callResults (new ! k)) \<Longrightarrow> Suc k = length new"
    by (auto simp: traceOk_def)
  from assms(1) have m: "map callTyp new = take (length new) ts" by (simp add: traceOk_def)
  then have "length new = length (take (length new) ts)" by (metis length_map)
  then show "k < length ts" using assms(2) by simp
  have "map callTyp new ! k = take (length new) ts ! k" using m by simp
  then show "callTyp (new ! k) = ts ! k" using assms(2) by simp
qed

lemma traceOk_types:
  assumes "traceOk sat c w inst ts new"
  shows "map callTyp new = take (length new) ts"
  using assms by (simp add: traceOk_def)

lemma built_before:
  assumes tr: "traceOk sat c w inst ts new" and dist: "distinct ts"
    and j: "j < k" and k: "k < length new"
  shows "lookup (replay sat (take k new) inst) (callTyp (new ! j)) = Some (callResults (new ! j) ! 0)"
    and "\<not> stops sat (callResults (new ! j))"
proof -
  have jl: "j < length new" using j k by simp
  show nf: "\<not> stops sat (callResults (new ! j))"
    using traceOk_nth(3) [OF tr jl] j k by auto
  have "distinct (map callTyp new)"
    unfolding traceOk_types [OF tr] using dist by simp
  then have d: "distinct (map callTyp (take k new))"
    by (simp add: take_map [symmetric])
  have mem: "new ! j \<in> set (take k new)"
    using j k by (auto simp: in_set_conv_nth intro!: exI [of _ j])
  show "lookup (replay sat (take k new) inst) (callTyp (new ! j)) = Some (callResults (new ! j) ! 0)"
    using replay_lookup_built [OF d mem nf traceOk_nth(2) [OF tr jl]] .
qed


lemma depsOf_final:
  "depsOf ((rebuildGraph sch c1)\<lparr>instances := i\<rparr>) = depsOf c1"
  by (simp add: depsOf_rebuildGraph)

lemma Resolve_collapse:
  "Resolve sat sch tgt s = (fst (Resolve sat sch tgt s), fst (snd (Resolve sat sch tgt s)),
     snd (snd (Resolve sat sch tgt s)))"
  by simp

lemma alwaysFails_failingProducer: "alwaysFails testSat (failingProducer n ins [t, errorType])"
  by (simp add: alwaysFails_def signalsFailure_def CallFn_def failingProducer_def alwaysError_def
      IsNil_def testSat_def errorType_def)

lemma Resolve_calls:
  assumes wf: "wf_container c" and sch: "valid_schedule sch"
    and R: "Resolve sat sch tgt (c, w) = (r, c', w')" and w': "w' = w @ new"
    and k: "k < length new"
  shows "lookup (typesCtors c) (callTyp (new ! k)) = Some (callCtor (new ! k))"
    and "callResults (new ! k)
           = CallFn (fn (constructors c ! callCtor (new ! k))) (w @ take k new) (callArgs (new ! k))"
proof -
  from wf sch R
  have "lookup (typesCtors c) (callTyp (new ! k)) = Some (callCtor (new ! k)) \<and>
    callResults (new ! k)
      = CallFn (fn (constructors c ! callCtor (new ! k))) (w @ take k new) (callArgs (new ! k))"
  proof (cases rule: Resolve_trace)
    case stopped
    with w' k show ?thesis by simp
  next
    case (instantiated T c1 sortedTypes new0)
    have n: "new0 = new" using instantiated(8) w' by simp
    note tr = instantiated(10) [unfolded n]
    note rf = resolveInterfaces_fields [OF instantiated(2)]
    from traceOk_nth(1) [OF tr k]
    have l: "lookup (typesCtors c) (callTyp (new ! k)) = Some (callCtor (new ! k))"
      and res: "callResults (new ! k)
        = CallFn (fn (constructors c1 ! callCtor (new ! k))) (w @ take k new) (callArgs (new ! k))"
      using rf(1) by (auto simp: validCall_def)
    have "callCtor (new ! k) < length (constructors c)"
      using wf l by (simp add: wf_container_def)
    then have "sameShape (constructors c ! callCtor (new ! k)) (constructors c1 ! callCtor (new ! k))"
      using rf(5) by (simp add: list_all2_nthD)
    then have "fn (constructors c1 ! callCtor (new ! k)) = fn (constructors c ! callCtor (new ! k))"
      by (simp add: sameShape_def)
    with l res show ?thesis by simp
  qed
  then show "lookup (typesCtors c) (callTyp (new ! k)) = Some (callCtor (new ! k))"
    and "callResults (new ! k)
           = CallFn (fn (constructors c ! callCtor (new ! k))) (w @ take k new) (callArgs (new ! k))"
    by simp_all
qed

subsection \<open>Capability resolution\<close>

lemma findImplLoop_interface:
  "Kind it = KInterface \<Longrightarrow>
   findImplLoop sat it registry impls = Inr (impls @ candidates sat registry it)"
  by (induction registry arbitrary: impls) (auto simp: candidates_def Implements_def)

lemma findImplementations_interface:
  "Kind it = KInterface \<Longrightarrow> findImplementations sat registry it = Inr (candidates sat registry it)"
  by (simp add: findImplementations_def findImplLoop_interface)

lemma resolveArgs_good:
  assumes "length fl = length as" and "slotsUnresolved (zip fl as)"
    and "filter (slotBad sat registry) (zip fl as) = []"
  shows "resolveArgs sat registry (enumerate (length pre) fl) (pre @ as)
           = (Ok () :: ('v error, unit) result, pre @ map (substSlot sat registry) (zip fl as))"
  using assms
proof (induction fl arbitrary: pre as)
  case Nil
  then show ?case by simp
next
  case (Cons b fl)
  then obtain a as' where as: "as = a # as'" by (cases as) auto
  have l: "length fl = length as'" using Cons.prems(1) as by simp
  have u: "slotsUnresolved (zip fl as')" using Cons.prems(2) as by (simp add: slotsUnresolved_def)
  have g: "filter (slotBad sat registry) (zip fl as') = []"
    using Cons.prems(3) as by (simp split: if_splits)
  show ?case
  proof (cases b)
    case False
    have "resolveArgs sat registry (enumerate (length pre) (b # fl)) (pre @ as)
        = (resolveArgs sat registry (enumerate (length (pre @ [a])) fl) ((pre @ [a]) @ as')
            :: ('v error, unit) result \<times> rtype list)"
      using False as by simp
    also have "\<dots> = (Ok (), (pre @ [a]) @ map (substSlot sat registry) (zip fl as'))"
      by (rule Cons.IH [OF l u g])
    finally show ?thesis using False as by (simp add: substSlot_def)
  next
    case True
    have k: "Kind a = KInterface" using Cons.prems(2) as True by (simp add: slotsUnresolved_def)
    have one: "length (candidates sat registry a) = 1"
      using Cons.prems(3) as True by (simp add: slotBad_def split: if_splits)
    then obtain x where x: "candidates sat registry a = [x]"
      by (cases "candidates sat registry a") auto
    have "resolveArgs sat registry (enumerate (length pre) (b # fl)) (pre @ as)
        = (resolveArgs sat registry (enumerate (length (pre @ [x])) fl) ((pre @ [x]) @ as')
            :: ('v error, unit) result \<times> rtype list)"
      using True as k x by (simp add: findImplementations_interface)
    also have "\<dots> = (Ok (), (pre @ [x]) @ map (substSlot sat registry) (zip fl as'))"
      by (rule Cons.IH [OF l u g])
    finally show ?thesis using True as x by (simp add: substSlot_def)
  qed
qed

lemma resolveArgs_bad:
  assumes "length fl = length as" and "slotsUnresolved (zip fl as)"
    and "filter (slotBad sat registry) (zip fl as) \<noteq> []"
  shows "\<exists>as'. resolveArgs sat registry (enumerate (length pre) fl) (pre @ as)
           = (Err (slotError sat registry (snd (hd (filter (slotBad sat registry) (zip fl as)))))
                :: ('v error, unit) result, as')"
  using assms
proof (induction fl arbitrary: pre as)
  case Nil
  then show ?case by simp
next
  case (Cons b fl)
  then obtain a as' where as: "as = a # as'" by (cases as) auto
  have l: "length fl = length as'" using Cons.prems(1) as by simp
  have u: "slotsUnresolved (zip fl as')" using Cons.prems(2) as by (simp add: slotsUnresolved_def)
  show ?case
  proof (cases "slotBad sat registry (b, a)")
    case True
    then have b: "b" and n: "length (candidates sat registry a) \<noteq> 1" by (auto simp: slotBad_def)
    have k: "Kind a = KInterface" using Cons.prems(2) as b by (simp add: slotsUnresolved_def)
    have h: "hd (filter (slotBad sat registry) (zip (b # fl) as)) = (b, a)"
      using True as by simp
    have "candidates sat registry a = [] \<or> 1 < length (candidates sat registry a)"
      using n by (cases "candidates sat registry a") auto
    then have "resolveArgs sat registry (enumerate (length pre) (b # fl)) (pre @ as)
        = (Err (slotError sat registry a) :: ('v error, unit) result, pre @ as)"
      using b as k by (auto simp: findImplementations_interface slotError_def Let_def)
    then show ?thesis unfolding h by auto
  next
    case False
    then have g: "filter (slotBad sat registry) (zip fl as') \<noteq> []"
      and h: "filter (slotBad sat registry) (zip (b # fl) as) = filter (slotBad sat registry) (zip fl as')"
      using Cons.prems(3) as by auto
    show ?thesis
    proof (cases b)
      case nb: False
      have "resolveArgs sat registry (enumerate (length pre) (b # fl)) (pre @ as)
          = (resolveArgs sat registry (enumerate (length (pre @ [a])) fl) ((pre @ [a]) @ as')
              :: ('v error, unit) result \<times> rtype list)"
        using nb as by simp
      with Cons.IH [OF l u g, of "pre @ [a]"] show ?thesis unfolding h by simp
    next
      case True
      have k: "Kind a = KInterface" using Cons.prems(2) as True by (simp add: slotsUnresolved_def)
      have one: "length (candidates sat registry a) = 1"
        using False True by (simp add: slotBad_def)
      then obtain x where x: "candidates sat registry a = [x]"
        by (cases "candidates sat registry a") auto
      have "resolveArgs sat registry (enumerate (length pre) (b # fl)) (pre @ as)
          = (resolveArgs sat registry (enumerate (length (pre @ [x])) fl) ((pre @ [x]) @ as')
              :: ('v error, unit) result \<times> rtype list)"
        using True as k x by (simp add: findImplementations_interface)
      with Cons.IH [OF l u g, of "pre @ [x]"] show ?thesis unfolding h by simp
    qed
  qed
qed

lemma resolveCtors_good:
  assumes "\<And>ci. ci \<in> set cs \<Longrightarrow>
      length (dependNeedsResolution ci) = length (args (signature ci)) \<and> slotsUnresolved (slotsOf ci)"
    and "filter (slotBad sat registry) (concat (map slotsOf cs)) = []"
  shows "resolveCtors sat registry cs
           = (Ok () :: ('v error, unit) result, map (substCtor sat registry) cs)"
  using assms
proof (induction cs)
  case Nil
  then show ?case by simp
next
  case (Cons ci cs)
  have len: "length (dependNeedsResolution ci) = length (args (signature ci))"
    and u: "slotsUnresolved (zip (dependNeedsResolution ci) (args (signature ci)))"
    using Cons.prems(1) [of ci] by (auto simp: slotsOf_def)
  have g: "filter (slotBad sat registry) (zip (dependNeedsResolution ci) (args (signature ci))) = []"
    using Cons.prems(2) by (simp add: slotsOf_def)
  have g': "filter (slotBad sat registry) (concat (map slotsOf cs)) = []"
    using Cons.prems(2) by simp
  have a: "resolveArgs sat registry (enumerate 0 (dependNeedsResolution ci)) (args (signature ci))
      = (Ok () :: ('v error, unit) result,
         map (substSlot sat registry) (zip (dependNeedsResolution ci) (args (signature ci))))"
    using resolveArgs_good [OF len u g, of "[]"] by simp
  have r: "resolveCtors sat registry cs
      = (Ok () :: ('v error, unit) result, map (substCtor sat registry) cs)"
    using Cons.IH [OF Cons.prems(1) g'] by simp
  show ?case
    using a r by (simp add: substCtor_def slotsOf_def)
qed

lemma resolveCtors_bad:
  assumes "\<And>ci. ci \<in> set cs \<Longrightarrow>
      length (dependNeedsResolution ci) = length (args (signature ci)) \<and> slotsUnresolved (slotsOf ci)"
    and "filter (slotBad sat registry) (concat (map slotsOf cs)) \<noteq> []"
  shows "\<exists>cs'. resolveCtors sat registry cs
           = (Err (slotError sat registry
                     (snd (hd (filter (slotBad sat registry) (concat (map slotsOf cs))))))
                :: ('v error, unit) result, cs')"
  using assms
proof (induction cs)
  case Nil
  then show ?case by simp
next
  case (Cons ci cs)
  let ?ss = "zip (dependNeedsResolution ci) (args (signature ci))"
  have len: "length (dependNeedsResolution ci) = length (args (signature ci))"
    and u: "slotsUnresolved ?ss"
    using Cons.prems(1) [of ci] by (auto simp: slotsOf_def)
  show ?case
  proof (cases "filter (slotBad sat registry) ?ss = []")
    case False
    from resolveArgs_bad [OF len u False, of "[]"] obtain as' where
      a: "resolveArgs sat registry (enumerate 0 (dependNeedsResolution ci)) (args (signature ci))
        = (Err (slotError sat registry (snd (hd (filter (slotBad sat registry) ?ss))))
             :: ('v error, unit) result, as')"
      by auto
    have h: "hd (filter (slotBad sat registry) (concat (map slotsOf (ci # cs))))
        = hd (filter (slotBad sat registry) ?ss)"
      using False by (simp add: slotsOf_def)
    show ?thesis unfolding h using a by simp
  next
    case True
    have a: "resolveArgs sat registry (enumerate 0 (dependNeedsResolution ci)) (args (signature ci))
        = (Ok () :: ('v error, unit) result, map (substSlot sat registry) ?ss)"
      using resolveArgs_good [OF len u True, of "[]"] by simp
    have h: "filter (slotBad sat registry) (concat (map slotsOf (ci # cs)))
        = filter (slotBad sat registry) (concat (map slotsOf cs))"
      using True by (simp add: slotsOf_def)
    have "filter (slotBad sat registry) (concat (map slotsOf cs)) \<noteq> []"
      using Cons.prems(2) unfolding h .
    from Cons.IH [OF Cons.prems(1) this] obtain cs' where
      r: "resolveCtors sat registry cs
        = (Err (slotError sat registry
                  (snd (hd (filter (slotBad sat registry) (concat (map slotsOf cs))))))
             :: ('v error, unit) result, cs')"
      by auto
    show ?thesis unfolding h using a r by simp
  qed
qed

lemma unresolved_NewContainer: "unresolved NewContainer"
  by (simp add: unresolved_def NewContainer_def)

lemma unresolved_Provide:
  assumes "unresolved c" and "Provide sat constructor c = (r, c')"
  shows "unresolved c'"
proof (cases "\<exists>u. r = Ok u")
  case False
  then show ?thesis using Provide_not_Ok [OF assms(2)] assms(1) by simp
next
  case True
  then obtain f where f: "constructor = AFunc f"
    using assms(2) by (cases constructor) (auto simp: Provide_def)
  from True f assms(2) have P: "Provide sat (AFunc f) c = (Ok (), c')" by auto
  have "slotsUnresolved (zip (map (\<lambda>arg. Kind arg = KInterface) (fnIn f)) (fnIn f))"
    by (induction "fnIn f") (auto simp: slotsUnresolved_def list_all_iff set_zip)
  then show ?thesis
    using assms(1) by (subst Provide_Ok(1) [OF P]) (simp add: unresolved_def slotsOf_def)
qed

lemma unresolved_provideAll: "unresolved (provideAll sat fs)"
proof -
  have "unresolved c \<Longrightarrow> unresolved (fold (\<lambda>f c. snd (Provide sat (AFunc f) c)) fs c)" for c :: "'a Container"
  proof (induction fs arbitrary: c)
    case Nil
    then show ?case by simp
  next
    case (Cons f fs)
    have "unresolved (snd (Provide sat (AFunc f) c))"
      using unresolved_Provide [OF Cons.prems, of sat "AFunc f" "fst (Provide sat (AFunc f) c)"
          "snd (Provide sat (AFunc f) c)"] by simp
    from Cons.IH [OF this] show ?case by simp
  qed
  from this [OF unresolved_NewContainer] show ?thesis by (simp add: provideAll_def)
qed

section \<open>The claims\<close>

text \<open>
  C1. The claim: a producer is invoked at most once over the container's lifetime; a
  second \<^verbatim>\<open>Resolve\<close> skips the producer of a type whose instance is cached and never
  replaces the cache entry. The code has no such test: Step 3 of \<^verbatim>\<open>Resolve\<close> calls
  \<^verbatim>\<open>resolveInstance\<close> for every sorted type, and \<^verbatim>\<open>resolveInstance\<close> calls the
  producer and overwrites \<^verbatim>\<open>c.instances[typ]\<close>. With the single producer
  \<^verbatim>\<open>NewDatabase\<close> registered, two calls of \<^verbatim>\<open>Resolve\<close> invoke it twice, and the
  second call replaces the cached instance by the new one.
\<close>

theorem C1_second_Resolve_invokes_producer_again:
  "(case Resolve testSat idSchedule (TargetPtr tDatabase) (databaseOnly, []) of
      (r1, c1, w1) \<Rightarrow>
        (case Resolve testSat idSchedule (TargetPtr tDatabase) (c1, w1) of
           (r2, c2, w2) \<Rightarrow>
             r1 = Ok (Value tDatabase (Some 0)) \<and>
             lookup (instances c1) tDatabase = Some (Value tDatabase (Some 0)) \<and>
             r2 = Ok (Value tDatabase (Some 1)) \<and>
             lookup (instances c2) tDatabase = Some (Value tDatabase (Some 1)) \<and>
             map callTyp w2 = [tDatabase, tDatabase]))"
  by code_simp

text \<open>
  C2. The claim: once the capability resolution pass has replaced every interface-typed
  input by a concrete type, running it again changes nothing and reports no error. The
  flags \<^verbatim>\<open>dependNeedsResolution\<close> are never cleared, so the second pass hands the
  concrete type that the first pass wrote to \<^verbatim>\<open>findImplementations\<close>, where
  \<^verbatim>\<open>Implements\<close> panics on a type that is not an interface. With \<^verbatim>\<open>NewFileStorage\<close>
  and \<^verbatim>\<open>NewDataProcessor(storage Storage)\<close> registered, the first pass succeeds and
  rewrites the input to \<^verbatim>\<open>*FileStorage\<close>; the second pass, and a \<^verbatim>\<open>Resolve\<close> that
  runs it, panic.
\<close>

theorem C2_second_pass_panics:
  "(case resolveInterfaces testSat interfaceContainer of
      (r1, c1) \<Rightarrow>
        r1 = (Ok () :: (nat error, unit) result) \<and>
        map (\<lambda>ci. args (signature ci)) (constructors c1) = [[], [tFileStorage]] \<and>
        fst (resolveInterfaces testSat c1) = Panic NonInterfaceTypePassedToImplements \<and>
        fst (Resolve testSat idSchedule (TargetPtr tDataProcessor) (c1, []))
          = Panic NonInterfaceTypePassedToImplements)"
  by code_simp

text \<open>
  C3. The claim: after two registrations with the same output type the container
  behaves, in validation, capability resolution and instantiation, as if only the last
  producer were registered. \<^verbatim>\<open>Provide\<close> overwrites \<^verbatim>\<open>c.typesCtors[returnType]\<close> but
  appends to \<^verbatim>\<open>c.constructors\<close> and \<^verbatim>\<open>c.typeRegistry\<close>, and nothing ever removes an
  entry from those; \<^verbatim>\<open>validateDependencies\<close> and \<^verbatim>\<open>resolveInterfaces\<close> range over
  \<^verbatim>\<open>c.constructors\<close>, \<^verbatim>\<open>findImplementations\<close> over \<^verbatim>\<open>c.typeRegistry\<close>. So an
  overwritten producer with an unregistered input makes \<^verbatim>\<open>Resolve\<close> fail where the last
  producer alone resolves, and a type registered twice is found twice as the
  implementation of an interface.
\<close>

theorem C3_overwritten_registration_counterexample:
  "fst (Resolve testSat idSchedule (TargetPtr tDatabase)
          (provideAll testSat [producer ''NewDatabase'' [] [tDatabase]], []))
     = Ok (Value tDatabase (Some 0)) \<and>
   fst (Resolve testSat idSchedule (TargetPtr tDatabase)
          (provideAll testSat [producer ''NewDatabaseFromConfig'' [tConfig] [tDatabase],
                               producer ''NewDatabase'' [] [tDatabase]], []))
     = Err (MissingConstructor tConfig) \<and>
   fst (Resolve testSat idSchedule (TargetPtr tDataProcessor)
          (provideAll testSat [producer ''NewFileStorage'' [] [tFileStorage],
                               producer ''NewDataProcessor'' [tStorage] [tDataProcessor]], []))
     = Ok (Value tDataProcessor (Some 1)) \<and>
   fst (Resolve testSat idSchedule (TargetPtr tDataProcessor)
          (provideAll testSat [producer ''NewFileStorage'' [] [tFileStorage],
                               producer ''NewFileStorage'' [] [tFileStorage],
                               producer ''NewDataProcessor'' [tStorage] [tDataProcessor]], []))
     = Err (InterfaceResolutionFailed
              (MultipleImplementationsFound tStorage [tFileStorage, tFileStorage]))"
  by code_simp

text \<open>
  C3, as amended. After two successful registrations with the same output type,
  \<open>typesCtors\<close> holds the second constructor for that type: the type's recorded inputs,
  from which the dependency graph is built, are the second producer's, and every
  invocation that \<^verbatim>\<open>Resolve\<close> makes for the type calls the second producer.
\<close>

theorem C3_last_registration_wins:
  assumes "reachable sat c0" and "valid_schedule sch"
    and "Provide sat (AFunc f1) c0 = (Ok (), c1)"
    and "Provide sat (AFunc f2) c1 = (Ok (), c2)"
    and "fnOut f1 ! 0 = fnOut f2 ! 0"
    and "Resolve sat sch tgt (c2, w) = (r, c', w')" and "w' = w @ new"
  shows "lookup (typesCtors c2) (fnOut f2 ! 0) = Some (Suc (length (constructors c0))) \<and>
    fn (constructors c2 ! Suc (length (constructors c0))) = f2 \<and>
    depsOf c2 (fnOut f2 ! 0) = fnIn f2 \<and>
    (\<forall>k < length new. callTyp (new ! k) = fnOut f2 ! 0 \<longrightarrow>
       callCtor (new ! k) = Suc (length (constructors c0)) \<and>
       callResults (new ! k) = CallFn f2 (w @ take k new) (callArgs (new ! k)))"
proof -
  let ?p = "Suc (length (constructors c0))"
  note c1 = Provide_Ok(1) [OF assms(3)]
  note c2 = Provide_Ok(1) [OF assms(4)]
  have len1: "length (constructors c1) = ?p" by (subst c1) simp
  have l: "lookup (typesCtors c2) (fnOut f2 ! 0) = Some ?p"
    by (subst c2) (simp add: lookup_store len1)
  have ci: "constructors c2 ! ?p
      = \<lparr>fn = f2, name = fnName f2, signature = \<lparr>args = fnIn f2, returnType = fnOut f2 ! 0\<rparr>,
         dependNeedsResolution = map (\<lambda>arg. Kind arg = KInterface) (fnIn f2)\<rparr>"
    by (subst c2) (simp add: len1 [symmetric])
  then have f: "fn (constructors c2 ! ?p) = f2" by simp
  have d: "depsOf c2 (fnOut f2 ! 0) = fnIn f2"
    unfolding depsOf_def l using ci by simp
  have r2: "reachable sat c2"
    using reachable_Provide [OF reachable_Provide [OF assms(1,3)] assms(4)] .
  have calls: "callCtor (new ! k) = ?p \<and>
       callResults (new ! k) = CallFn f2 (w @ take k new) (callArgs (new ! k))"
    if k: "k < length new" and t: "callTyp (new ! k) = fnOut f2 ! 0" for k
  proof -
    note rc = Resolve_calls [OF reachable_wf [OF r2] assms(2,6,7) k]
    from rc(1) l t have "callCtor (new ! k) = ?p" by simp
    with rc(2) f show ?thesis by simp
  qed
  from l f d calls show ?thesis by blast
qed

theorem C3_witness:
  "reachable testSat (NewContainer :: nat Container) \<and> valid_schedule idSchedule \<and>
   fst (Provide testSat (AFunc (producerAt 7 ''NewDatabase'' [] [tDatabase])) NewContainer) = Ok () \<and>
   fst (Provide testSat (AFunc (producerAt 9 ''NewOtherDatabase'' [] [tDatabase]))
          (snd (Provide testSat (AFunc (producerAt 7 ''NewDatabase'' [] [tDatabase])) NewContainer)))
     = Ok () \<and>
   map callTyp (snd (snd (Resolve testSat idSchedule (TargetPtr tDatabase)
       (provideAll testSat [producerAt 7 ''NewDatabase'' [] [tDatabase],
                            producerAt 9 ''NewOtherDatabase'' [] [tDatabase]], []))))
     = [tDatabase] \<and>
   callCtor (snd (snd (Resolve testSat idSchedule (TargetPtr tDatabase)
       (provideAll testSat [producerAt 7 ''NewDatabase'' [] [tDatabase],
                            producerAt 9 ''NewOtherDatabase'' [] [tDatabase]], []))) ! 0) = 1 \<and>
   callResults (snd (snd (Resolve testSat idSchedule (TargetPtr tDatabase)
       (provideAll testSat [producerAt 7 ''NewDatabase'' [] [tDatabase],
                            producerAt 9 ''NewOtherDatabase'' [] [tDatabase]], []))) ! 0)
     = [Value tDatabase (Some 9)]"
proof -
  let ?f1 = "producerAt 7 ''NewDatabase'' [] [tDatabase]"
  let ?f2 = "producerAt 9 ''NewOtherDatabase'' [] [tDatabase]"
  let ?c0 = "NewContainer :: nat Container"
  let ?c1 = "snd (Provide testSat (AFunc ?f1) ?c0)"
  let ?c2 = "snd (Provide testSat (AFunc ?f2) ?c1)"
  let ?R = "Resolve testSat idSchedule (TargetPtr tDatabase) (?c2, [])"
  let ?new = "snd (snd ?R)"
  have c2: "provideAll testSat [?f1, ?f2] = ?c2" by (simp add: provideAll_def)
  have p1: "fst (Provide testSat (AFunc ?f1) ?c0) = Ok ()" by code_simp
  then have h1: "Provide testSat (AFunc ?f1) ?c0 = (Ok (), ?c1)" by (metis prod.collapse)
  have p2: "fst (Provide testSat (AFunc ?f2) ?c1) = Ok ()" by code_simp
  then have h2: "Provide testSat (AFunc ?f2) ?c1 = (Ok (), ?c2)" by (metis prod.collapse)
  have same: "fnOut ?f1 ! 0 = fnOut ?f2 ! 0" by (simp add: producerAt_def)
  have w: "snd (snd ?R) = [] @ ?new" by simp
  have types: "map callTyp ?new = [tDatabase]" by code_simp
  then have "length (map callTyp ?new) = 1" by simp
  then have k: "0 < length ?new" by simp
  have t0: "callTyp (?new ! 0) = fnOut ?f2 ! 0" by code_simp
  have a0: "callArgs (?new ! 0) = []" by code_simp
  from C3_last_registration_wins [OF reachable_new valid_idSchedule h1 h2 same Resolve_collapse w]
    k t0
  have "callCtor (?new ! 0) = Suc (length (constructors ?c0))"
    and "callResults (?new ! 0) = CallFn ?f2 ([] @ take 0 ?new) (callArgs (?new ! 0))"
    by blast+
  then have "callCtor (?new ! 0) = 1" and "callResults (?new ! 0) = [Value tDatabase (Some 9)]"
    unfolding a0 by (simp_all add: NewContainer_def CallFn_def producerAt_def fixedPointer_def)
  with reachable_new valid_idSchedule p1 p2 types show ?thesis unfolding c2 by blast
qed

text \<open>
  C4. The claim: whenever the dependency graph has a cycle among registered types,
  resolving any target fails with a circular-dependency error. \<^verbatim>\<open>Resolve\<close> sorts the
  graph only as its Step 2, after \<^verbatim>\<open>resolveInterfaces\<close> and \<^verbatim>\<open>validateDependencies\<close>
  have passed, and returns the error of whichever stage fails first. With the cycle of
  the tests (\<^verbatim>\<open>newA(*C)\<close>, \<^verbatim>\<open>newB(*A)\<close>, \<^verbatim>\<open>newC(*B)\<close>) registered next to
  \<^verbatim>\<open>NewDatabaseFromConfig(*Config)\<close>, whose input has no producer, \<^verbatim>\<open>Resolve\<close> reports
  the missing constructor for \<^verbatim>\<open>*Config\<close>, under either iteration order; registered
  next to \<^verbatim>\<open>NewDataProcessor(Storage)\<close> with nothing implementing \<^verbatim>\<open>Storage\<close>, it
  reports that no implementation was found. The cycle is not mentioned in either case.
\<close>

theorem C4_cycle_behind_earlier_failure_counterexample:
  "list_all (\<lambda>t. lookup (typesCtors cyclicMissingContainer) t \<noteq> None) [tA, tB, tC] \<and>
   (tA, tA) \<in> (dependsOn cyclicMissingContainer)\<^sup>+ \<and>
   fst (Resolve testSat idSchedule (TargetPtr tA) (cyclicMissingContainer, []))
     = Err (MissingConstructor tConfig) \<and>
   fst (Resolve testSat revSchedule (TargetPtr tA) (cyclicMissingContainer, []))
     = Err (MissingConstructor tConfig) \<and>
   list_all (\<lambda>t. lookup (typesCtors cyclicUnimplementedContainer) t \<noteq> None) [tA, tB, tC] \<and>
   (tA, tA) \<in> (dependsOn cyclicUnimplementedContainer)\<^sup>+ \<and>
   fst (Resolve testSat idSchedule (TargetPtr tA) (cyclicUnimplementedContainer, []))
     = Err (InterfaceResolutionFailed (NoImplementationFound tStorage)) \<and>
   fst (Resolve testSat revSchedule (TargetPtr tA) (cyclicUnimplementedContainer, []))
     = Err (InterfaceResolutionFailed (NoImplementationFound tStorage))"
proof -
  let ?m = "cyclicMissingContainer" and ?u = "cyclicUnimplementedContainer"
  have reg1: "list_all (\<lambda>t. lookup (typesCtors ?m) t \<noteq> None) [tA, tB, tC]" by code_simp
  have m1: "tA \<in> set (depsOf ?m tB)" by code_simp
  have m2: "tB \<in> set (depsOf ?m tC)" by code_simp
  have m3: "tC \<in> set (depsOf ?m tA)" by code_simp
  have a1: "(tA, tB) \<in> dependsOn ?m" using m1 unfolding dependsOn_def by blast
  have a2: "(tB, tC) \<in> dependsOn ?m" using m2 unfolding dependsOn_def by blast
  have a3: "(tC, tA) \<in> dependsOn ?m" using m3 unfolding dependsOn_def by blast
  have cyc1: "(tA, tA) \<in> (dependsOn ?m)\<^sup>+"
    using trancl_into_trancl [OF trancl_into_trancl [OF r_into_trancl [OF a1] a2] a3] .
  have r1: "fst (Resolve testSat idSchedule (TargetPtr tA) (?m, []))
      = Err (MissingConstructor tConfig)" by code_simp
  have r2: "fst (Resolve testSat revSchedule (TargetPtr tA) (?m, []))
      = Err (MissingConstructor tConfig)" by code_simp
  have reg2: "list_all (\<lambda>t. lookup (typesCtors ?u) t \<noteq> None) [tA, tB, tC]" by code_simp
  have u1: "tA \<in> set (depsOf ?u tB)" by code_simp
  have u2: "tB \<in> set (depsOf ?u tC)" by code_simp
  have u3: "tC \<in> set (depsOf ?u tA)" by code_simp
  have b1: "(tA, tB) \<in> dependsOn ?u" using u1 unfolding dependsOn_def by blast
  have b2: "(tB, tC) \<in> dependsOn ?u" using u2 unfolding dependsOn_def by blast
  have b3: "(tC, tA) \<in> dependsOn ?u" using u3 unfolding dependsOn_def by blast
  have cyc2: "(tA, tA) \<in> (dependsOn ?u)\<^sup>+"
    using trancl_into_trancl [OF trancl_into_trancl [OF r_into_trancl [OF b1] b2] b3] .
  have r3: "fst (Resolve testSat idSchedule (TargetPtr tA) (?u, []))
      = Err (InterfaceResolutionFailed (NoImplementationFound tStorage))" by code_simp
  have r4: "fst (Resolve testSat revSchedule (TargetPtr tA) (?u, []))
      = Err (InterfaceResolutionFailed (NoImplementationFound tStorage))" by code_simp
  from reg1 cyc1 r1 r2 reg2 cyc2 r3 r4 show ?thesis by blast
qed

text \<open>
  C4, as amended. When capability resolution succeeds, every input then recorded has a
  registered constructor, and the graph of those recorded inputs contains a cycle,
  \<^verbatim>\<open>Resolve\<close> fails with the circular-dependency error of \<^verbatim>\<open>topologicalSort\<close>, for
  whatever target and whatever order the runtime ranges over the maps: the result of
  Kahn's algorithm is shorter than the number of types with constructors, and nothing
  is instantiated.
\<close>

theorem C4_cycle_reported:
  assumes "reachable sat c" and "valid_schedule sch"
    and "resolveInterfaces sat c = (Ok (), c1)"
    and "missingTypes c1 = {}"
    and "\<not> acyclic (dependsOn c1)"
  shows "\<exists>n. n < length (typesCtors c1) \<and>
           Resolve sat sch (TargetPtr T) (c, w)
             = (Err (DependencyResolutionFailed (CircularDependency n (length (typesCtors c1)))),
                rebuildGraph sch c1, w)"
proof -
  have wf1: "wf_container c1"
    using wf_resolveInterfaces [OF reachable_wf [OF assms(1)] assms(3)] .
  have v: "validateDependencies sch (rebuildGraph sch c1) = (Ok () :: ('a error, unit) result)"
    using validateDependencies_Ok_iff [OF assms(2), of "rebuildGraph sch c1" "()"] assms(4)
    by (simp add: missingTypes_rebuildGraph)
  from topologicalSort_cyclic [OF wf1 assms(2) assms(5)]
  obtain n where n: "n < length (typesCtors c1)"
    "topologicalSort sch (rebuildGraph sch c1)
       = (Err (CircularDependency n (length (typesCtors c1))) :: ('a error, rtype list) result)"
    by blast
  have "Resolve sat sch (TargetPtr T) (c, w)
      = (Err (DependencyResolutionFailed (CircularDependency n (length (typesCtors c1)))),
         rebuildGraph sch c1, w)"
    using assms(3) v n(2) by (simp add: Resolve_def Let_def)
  with n(1) show ?thesis by blast
qed

theorem C4_witness:
  "reachable testSat cyclicContainer \<and> valid_schedule idSchedule \<and>
   fst (resolveInterfaces testSat cyclicContainer) = Ok () \<and>
   missingList (snd (resolveInterfaces testSat cyclicContainer)) = [] \<and>
   (tA, tA) \<in> (dependsOn (snd (resolveInterfaces testSat cyclicContainer)))\<^sup>+ \<and>
   (\<exists>n < 3. fst (Resolve testSat idSchedule (TargetPtr tA) (cyclicContainer, []))
       = Err (DependencyResolutionFailed (CircularDependency n 3)))"
proof -
  let ?c1 = "snd (resolveInterfaces testSat cyclicContainer)"
  have r: "reachable testSat cyclicContainer"
    unfolding cyclicContainer_def by (rule reachable_provideAll)
  have h1: "fst (resolveInterfaces testSat cyclicContainer) = Ok ()" by code_simp
  then have h2: "resolveInterfaces testSat cyclicContainer = (Ok (), ?c1)"
    by (metis prod.collapse)
  have h3: "missingList ?c1 = []" by code_simp
  then have h4: "missingTypes ?c1 = {}" by (simp add: missingTypes_missingList)
  have e1: "tA \<in> set (depsOf ?c1 tB)" by code_simp
  have e2: "tB \<in> set (depsOf ?c1 tC)" by code_simp
  have e3: "tC \<in> set (depsOf ?c1 tA)" by code_simp
  have s1: "(tA, tB) \<in> dependsOn ?c1" using e1 unfolding dependsOn_def by blast
  have s2: "(tB, tC) \<in> dependsOn ?c1" using e2 unfolding dependsOn_def by blast
  have s3: "(tC, tA) \<in> dependsOn ?c1" using e3 unfolding dependsOn_def by blast
  have cyc: "(tA, tA) \<in> (dependsOn ?c1)\<^sup>+"
    using trancl_into_trancl [OF trancl_into_trancl [OF r_into_trancl [OF s1] s2] s3] .
  then have h5: "\<not> acyclic (dependsOn ?c1)" by (auto simp: acyclic_def)
  have len: "length (typesCtors ?c1) = 3" by code_simp
  from C4_cycle_reported [OF r valid_idSchedule h2 h4 h5, of tA "[]"]
  have "\<exists>n < 3. fst (Resolve testSat idSchedule (TargetPtr tA) (cyclicContainer, []))
       = Err (DependencyResolutionFailed (CircularDependency n 3))"
    unfolding len by auto
  then show ?thesis using r valid_idSchedule h1 h3 cyc by blast
qed

text \<open>
  C5. The claim: whenever some constructor declares an input type that no registered
  constructor produces, \<^verbatim>\<open>Resolve\<close> fails with an error naming that type.
  \<^verbatim>\<open>validateDependencies\<close> is Step 1.5 of \<^verbatim>\<open>Resolve\<close>: it runs after
  \<^verbatim>\<open>resolveInterfaces\<close>, on the inputs as that pass has rewritten them. So with
  \<^verbatim>\<open>NewUserService(*Database, *Cache)\<close> and \<^verbatim>\<open>NewDataProcessor(Storage)\<close> registered and
  nothing else, three declared inputs have no producer, and \<^verbatim>\<open>Resolve\<close> reports that no
  implementation of \<^verbatim>\<open>Storage\<close> was found, under either iteration order. And with
  \<^verbatim>\<open>NewFileStorage\<close> and \<^verbatim>\<open>NewDataProcessor(Storage)\<close> registered, the declared input
  \<^verbatim>\<open>Storage\<close> is the output of no constructor, and \<^verbatim>\<open>Resolve\<close> succeeds.
\<close>

theorem C5_capability_pass_runs_first_counterexample:
  "missingList serverAndProcessor = [tDatabase, tCache, tStorage] \<and>
   fst (Resolve testSat idSchedule (TargetPtr tUserService) (serverAndProcessor, []))
     = Err (InterfaceResolutionFailed (NoImplementationFound tStorage)) \<and>
   fst (Resolve testSat revSchedule (TargetPtr tUserService) (serverAndProcessor, []))
     = Err (InterfaceResolutionFailed (NoImplementationFound tStorage)) \<and>
   missingList interfaceContainer = [tStorage] \<and>
   fst (Resolve testSat idSchedule (TargetPtr tDataProcessor) (interfaceContainer, []))
     = Ok (Value tDataProcessor (Some 1))"
  by code_simp

text \<open>
  C5, as amended. When capability resolution has succeeded and some constructor then
  records an input type (a declared concrete input, or the implementation written in
  place of a declared interface) that no registered constructor produces, \<^verbatim>\<open>Resolve\<close>
  fails with the missing-constructor error of \<^verbatim>\<open>validateDependencies\<close>, naming one
  such type; the check runs before the sort, so the error is not a sorting failure, and
  no producer has run.
\<close>

theorem C5_missing_producer_reported:
  assumes "valid_schedule sch"
    and "resolveInterfaces sat c = (Ok (), c1)"
    and "missingTypes c1 \<noteq> {}"
  shows "\<exists>d \<in> missingTypes c1.
           Resolve sat sch (TargetPtr T) (c, w) = (Err (MissingConstructor d), rebuildGraph sch c1, w)"
proof -
  have "missingTypes (rebuildGraph sch c1) \<noteq> {}"
    using assms(3) by (simp add: missingTypes_rebuildGraph)
  from validateDependencies_missing [OF assms(1) this]
  obtain d where d: "d \<in> missingTypes c1"
    "validateDependencies sch (rebuildGraph sch c1) = (Err (MissingConstructor d) :: ('a error, unit) result)"
    by (auto simp: missingTypes_rebuildGraph)
  have "Resolve sat sch (TargetPtr T) (c, w) = (Err (MissingConstructor d), rebuildGraph sch c1, w)"
    using assms(2) d(2) by (simp add: Resolve_def Let_def)
  with d(1) show ?thesis by blast
qed

theorem C5_witness:
  "valid_schedule revSchedule \<and>
   fst (resolveInterfaces testSat serverOnly) = Ok () \<and>
   missingList (snd (resolveInterfaces testSat serverOnly)) = [tDatabase, tCache] \<and>
   (\<exists>d. d \<in> set [tDatabase, tCache] \<and>
        fst (Resolve testSat revSchedule (TargetPtr tUserService) (serverOnly, []))
          = Err (MissingConstructor d) \<and>
        snd (snd (Resolve testSat revSchedule (TargetPtr tUserService) (serverOnly, []))) = [])"
proof -
  let ?c1 = "snd (resolveInterfaces testSat serverOnly)"
  have h1: "fst (resolveInterfaces testSat serverOnly) = Ok ()" by code_simp
  then have h2: "resolveInterfaces testSat serverOnly = (Ok (), ?c1)"
    by (metis prod.collapse)
  have h3: "missingList ?c1 = [tDatabase, tCache]" by code_simp
  then have h4: "missingTypes ?c1 \<noteq> {}" by (simp add: missingTypes_missingList)
  from C5_missing_producer_reported [OF valid_revSchedule h2 h4, of tUserService "[]"]
  obtain d where "d \<in> missingTypes ?c1"
    "Resolve testSat revSchedule (TargetPtr tUserService) (serverOnly, [])
       = (Err (MissingConstructor d), rebuildGraph revSchedule ?c1, [])"
    by blast
  then have "d \<in> set [tDatabase, tCache] \<and>
        fst (Resolve testSat revSchedule (TargetPtr tUserService) (serverOnly, []))
          = Err (MissingConstructor d) \<and>
        snd (snd (Resolve testSat revSchedule (TargetPtr tUserService) (serverOnly, []))) = []"
    using h3 by (simp add: missingTypes_missingList)
  then show ?thesis using valid_revSchedule h1 h3 by blast
qed

text \<open>
  C6. The claim: an input declared as an interface needs exactly one registered concrete
  output type that satisfies it; that one is substituted, none or several is an error.
  \<^verbatim>\<open>findImplementations\<close> ranges over \<^verbatim>\<open>c.typeRegistry\<close>, to which every successful
  \<^verbatim>\<open>Provide\<close> appends: it counts registrations, not types. With \<^verbatim>\<open>NewFileStorage\<close>
  registered twice, \<^verbatim>\<open>*FileStorage\<close> is the one registered type that satisfies
  \<^verbatim>\<open>Storage\<close>, and \<^verbatim>\<open>Resolve\<close> reports multiple implementations, listing it twice.
  And the substitution is made once only: after a first \<^verbatim>\<open>Resolve\<close> the input of
  \<^verbatim>\<open>NewDataProcessor(Storage)\<close>, still declared as \<^verbatim>\<open>Storage\<close> and still flagged, holds
  \<^verbatim>\<open>*FileStorage\<close>, and a second \<^verbatim>\<open>Resolve\<close> panics in \<^verbatim>\<open>Implements\<close> (see C2).
\<close>

theorem C6_registrations_counted_counterexample:
  "keys (typesCtors duplicateContainer) = [tFileStorage, tDataProcessor] \<and>
   filter (\<lambda>t. testSat t tStorage \<or> testSat (PointerTo t) tStorage)
     (keys (typesCtors duplicateContainer)) = [tFileStorage] \<and>
   fst (Resolve testSat idSchedule (TargetPtr tDataProcessor) (duplicateContainer, []))
     = Err (InterfaceResolutionFailed
              (MultipleImplementationsFound tStorage [tFileStorage, tFileStorage])) \<and>
   (case Resolve testSat idSchedule (TargetPtr tDataProcessor) (interfaceContainer, []) of
      (r1, c1, w1) \<Rightarrow>
        r1 = Ok (Value tDataProcessor (Some 1)) \<and>
        map (\<lambda>ci. (fnIn (fn ci), dependNeedsResolution ci, args (signature ci))) (constructors c1)
          = [([], [], []), ([tStorage], [True], [tFileStorage])] \<and>
        filter (\<lambda>t. testSat t tStorage \<or> testSat (PointerTo t) tStorage) (typeRegistry c1)
          = [tFileStorage] \<and>
        fst (Resolve testSat idSchedule (TargetPtr tDataProcessor) (c1, w1))
          = Panic NonInterfaceTypePassedToImplements)"
  by code_simp

text \<open>
  C6, as amended. In a container that has not been through capability resolution yet
  (as registration leaves it), an input declared as an interface is resolved against
  its candidates: the entries of the type registry, one for every successful
  registration, that are not interfaces and implement the interface, directly or
  through a pointer to them (this is what \<^verbatim>\<open>findImplementations\<close> returns). The
  candidates are the registered types that satisfy the interface, each as often as it
  was registered. If every such input has exactly one candidate, \<^verbatim>\<open>resolveInterfaces\<close>
  succeeds and has written the candidate into the input's slot, leaving all other slots
  as they were. Otherwise \<^verbatim>\<open>Resolve\<close> fails with the error for the first input, in the
  order of registration and declaration, that has not exactly one candidate: no
  implementation found when there is none, multiple implementations found, with the
  list of candidates, when there are several.
\<close>

theorem C6_capability_resolution:
  assumes "reachable sat c" and "unresolved c"
  shows "(\<forall>it. Kind it = KInterface \<longrightarrow>
            findImplementations sat (typeRegistry c) it = Inr (candidates sat (typeRegistry c) it)) \<and>
    (\<forall>it. set (candidates sat (typeRegistry c) it)
            = {t \<in> set (keys (typesCtors c)).
                 Kind t \<noteq> KInterface \<and> (sat t it \<or> sat (PointerTo t) it)}) \<and>
    (badSlots sat c = [] \<longrightarrow>
       resolveInterfaces sat c
         = (Ok (), c\<lparr>constructors := map (substCtor sat (typeRegistry c)) (constructors c)\<rparr>)) \<and>
    (badSlots sat c \<noteq> [] \<longrightarrow>
       (\<exists>c1. Resolve sat sch (TargetPtr T) (c, w)
          = (Err (InterfaceResolutionFailed
                    (slotError sat (typeRegistry c) (snd (hd (badSlots sat c))))), c1, w)))"
proof -
  note wf = reachable_wf [OF assms(1)]
  have each: "length (dependNeedsResolution ci) = length (args (signature ci)) \<and>
      slotsUnresolved (slotsOf ci)" if "ci \<in> set (constructors c)" for ci
    using that wf assms(2) by (auto simp: wf_container_def unresolved_def list_all_iff)
  have good: "resolveInterfaces sat c
         = (Ok (), c\<lparr>constructors := map (substCtor sat (typeRegistry c)) (constructors c)\<rparr>)"
    if "badSlots sat c = []"
    using resolveCtors_good [OF each, of "constructors c" sat "typeRegistry c"] that
    by (simp add: resolveInterfaces_def badSlots_def)
  have bad: "\<exists>c1. Resolve sat sch (TargetPtr T) (c, w)
          = (Err (InterfaceResolutionFailed
                    (slotError sat (typeRegistry c) (snd (hd (badSlots sat c))))), c1, w)"
    if "badSlots sat c \<noteq> []"
  proof -
    from resolveCtors_bad [OF each, of "constructors c" sat "typeRegistry c"] that
    obtain cs' where "resolveCtors sat (typeRegistry c) (constructors c)
      = (Err (slotError sat (typeRegistry c) (snd (hd (badSlots sat c))))
           :: ('a error, unit) result, cs')"
      unfolding badSlots_def by blast
    then have "Resolve sat sch (TargetPtr T) (c, w)
          = (Err (InterfaceResolutionFailed
                    (slotError sat (typeRegistry c) (snd (hd (badSlots sat c))))),
             c\<lparr>constructors := cs'\<rparr>, w)"
      by (simp add: Resolve_def resolveInterfaces_def)
    then show ?thesis by blast
  qed
  have reg: "set (typeRegistry c) = set (keys (typesCtors c))"
    using wf by (simp add: wf_container_def)
  have cand: "set (candidates sat (typeRegistry c) it)
            = {t \<in> set (keys (typesCtors c)).
                 Kind t \<noteq> KInterface \<and> (sat t it \<or> sat (PointerTo t) it)}" for it
    unfolding candidates_def set_filter reg by simp
  have impls: "\<forall>it. Kind it = KInterface \<longrightarrow>
            findImplementations sat (typeRegistry c) it = Inr (candidates sat (typeRegistry c) it)"
    by (simp add: findImplementations_interface)
  from impls cand good bad show ?thesis by blast
qed

theorem C6_witness:
  "reachable testSat interfaceContainer \<and> unresolved interfaceContainer \<and>
   badSlots testSat interfaceContainer = [] \<and>
   fst (resolveInterfaces testSat interfaceContainer) = Ok () \<and>
   map (\<lambda>ci. args (signature ci)) (constructors (snd (resolveInterfaces testSat interfaceContainer)))
     = [[], [tFileStorage]] \<and>
   reachable testSat processorOnly \<and> unresolved processorOnly \<and>
   badSlots testSat processorOnly = [(True, tStorage)] \<and>
   fst (Resolve testSat idSchedule (TargetPtr tDataProcessor) (processorOnly, []))
     = Err (InterfaceResolutionFailed (NoImplementationFound tStorage)) \<and>
   reachable testSat ambiguousContainer \<and> unresolved ambiguousContainer \<and>
   badSlots testSat ambiguousContainer = [(True, tStorage)] \<and>
   fst (Resolve testSat idSchedule (TargetPtr tDataProcessor) (ambiguousContainer, []))
     = Err (InterfaceResolutionFailed
              (MultipleImplementationsFound tStorage [tFileStorage, tMemoryStorage]))"
proof -
  have r1: "reachable testSat interfaceContainer"
    unfolding interfaceContainer_def by (rule reachable_provideAll)
  have u1: "unresolved interfaceContainer"
    unfolding interfaceContainer_def by (rule unresolved_provideAll)
  have b1: "badSlots testSat interfaceContainer = []" by code_simp
  from C6_capability_resolution [OF r1 u1, of idSchedule tDataProcessor "[]"] b1
  have ri: "resolveInterfaces testSat interfaceContainer
      = (Ok (), interfaceContainer\<lparr>constructors :=
           map (substCtor testSat (typeRegistry interfaceContainer)) (constructors interfaceContainer)\<rparr>)"
    by blast
  have o1: "fst (resolveInterfaces testSat interfaceContainer) = Ok ()"
    unfolding ri by simp
  have "map (\<lambda>ci. args (signature ci))
          (map (substCtor testSat (typeRegistry interfaceContainer)) (constructors interfaceContainer))
      = [[], [tFileStorage]]"
    by code_simp
  then have a1: "map (\<lambda>ci. args (signature ci))
      (constructors (snd (resolveInterfaces testSat interfaceContainer))) = [[], [tFileStorage]]"
    unfolding ri by simp
  have r2: "reachable testSat processorOnly"
    unfolding processorOnly_def by (rule reachable_provideAll)
  have u2: "unresolved processorOnly"
    unfolding processorOnly_def by (rule unresolved_provideAll)
  have b2: "badSlots testSat processorOnly = [(True, tStorage)]" by code_simp
  have e2: "slotError testSat (typeRegistry processorOnly) tStorage
      = (NoImplementationFound tStorage :: nat error)" by code_simp
  from C6_capability_resolution [OF r2 u2, of idSchedule tDataProcessor "[]"] b2 e2
  have o2: "fst (Resolve testSat idSchedule (TargetPtr tDataProcessor) (processorOnly, []))
     = Err (InterfaceResolutionFailed (NoImplementationFound tStorage))"
    by auto
  have r3: "reachable testSat ambiguousContainer"
    unfolding ambiguousContainer_def by (rule reachable_provideAll)
  have u3: "unresolved ambiguousContainer"
    unfolding ambiguousContainer_def by (rule unresolved_provideAll)
  have b3: "badSlots testSat ambiguousContainer = [(True, tStorage)]" by code_simp
  have e3: "slotError testSat (typeRegistry ambiguousContainer) tStorage
      = (MultipleImplementationsFound tStorage [tFileStorage, tMemoryStorage] :: nat error)"
    by code_simp
  from C6_capability_resolution [OF r3 u3, of idSchedule tDataProcessor "[]"] b3 e3
  have o3: "fst (Resolve testSat idSchedule (TargetPtr tDataProcessor) (ambiguousContainer, []))
     = Err (InterfaceResolutionFailed
              (MultipleImplementationsFound tStorage [tFileStorage, tMemoryStorage]))"
    by auto
  from r1 u1 b1 o1 a1 r2 u2 b2 o2 r3 u3 b3 o3 show ?thesis by blast
qed

text \<open>
  C7. Every invocation \<^verbatim>\<open>Resolve\<close> makes is wired from instances built earlier in the
  same call: for the \<open>k\<close>-th invocation of the call and each recorded input of its type
  (after capability resolution), an earlier invocation of the same call was made for
  that input type, did not stop the call (it neither signalled failure nor made the nil
  test on its last result panic), had put its first result into the instance cache by
  the time of the \<open>k\<close>-th invocation, and that instance is the argument passed.
  This holds for every reachable container, target, and map iteration order; where the
  registry is cyclic or not fully registered no invocation is made at all.
\<close>

theorem C7_inputs_built_before_consumer:
  assumes "reachable sat c" and "valid_schedule sch"
    and "Resolve sat sch tgt (c, w) = (r, c', w')" and "w' = w @ new"
    and "k < length new"
  shows "length (callArgs (new ! k)) = length (depsOf c' (callTyp (new ! k))) \<and>
    (\<forall>i < length (depsOf c' (callTyp (new ! k))).
       \<exists>j < k. callTyp (new ! j) = depsOf c' (callTyp (new ! k)) ! i \<and>
          \<not> stops sat (callResults (new ! j)) \<and>
          lookup (replay sat (take k new) (instances c)) (depsOf c' (callTyp (new ! k)) ! i)
            = Some (callResults (new ! j) ! 0) \<and>
          callArgs (new ! k) ! i = callResults (new ! j) ! 0)"
proof -
  from reachable_wf [OF assms(1)] assms(2,3) show ?thesis
  proof (cases rule: Resolve_trace)
    case stopped
    with assms(4,5) show ?thesis by simp
  next
    case (instantiated T c1 sortedTypes new0)
    have n: "new0 = new" using instantiated(8) assms(4) by simp
    note tr = instantiated(10) [unfolded n]
    let ?e = "new ! k"
    let ?cache = "replay sat (take k new) (instances c)"
    have deps: "depsOf c' = depsOf c1"
      unfolding instantiated(9) by (rule depsOf_final)
    let ?deps = "depsOf c1 (callTyp ?e)"
    note v = traceOk_nth(1) [OF tr assms(5)]
    have as: "callArgs ?e = map (\<lambda>d. the (lookup ?cache d)) ?deps"
      using v by (simp add: validCall_def)
    have ty: "callTyp ?e = sortedTypes ! k" and kl: "k < length sortedTypes"
      using traceOk_nth(4,5) [OF tr assms(5)] by auto
    have sub: "set ?deps \<subseteq> set (take k sortedTypes)"
      unfolding ty using instantiated(7) [OF kl] .
    have "map callTyp (take k new) = take k (map callTyp new)" by (simp add: take_map)
    also have "\<dots> = take k (take (length new) sortedTypes)"
      using traceOk_types [OF tr] by simp
    also have "\<dots> = take k sortedTypes" using assms(5) by (simp add: min_def)
    finally have tk: "take k sortedTypes = map callTyp (take k new)" by simp
    have each: "\<exists>j < k. callTyp (new ! j) = ?deps ! i \<and>
          \<not> stops sat (callResults (new ! j)) \<and>
          lookup ?cache (?deps ! i) = Some (callResults (new ! j) ! 0) \<and>
          callArgs ?e ! i = callResults (new ! j) ! 0" if i: "i < length ?deps" for i
    proof -
      have "?deps ! i \<in> set (map callTyp (take k new))"
        using sub i unfolding tk by auto
      then obtain j where j: "j < k" "callTyp (new ! j) = ?deps ! i"
        using assms(5) by (auto simp: in_set_conv_nth)
      note b = built_before [OF tr instantiated(5) j(1) assms(5)]
      have "lookup ?cache (?deps ! i) = Some (callResults (new ! j) ! 0)"
        using b(1) j(2) by simp
      moreover have "callArgs ?e ! i = the (lookup ?cache (?deps ! i))"
        unfolding as using i by simp
      ultimately show ?thesis using j b(2) by auto
    qed
    show ?thesis unfolding deps using as each by simp
  qed
qed

theorem C7_witness:
  "reachable testSat appContainer \<and> valid_schedule revSchedule \<and>
   map callTyp (snd (snd (Resolve testSat revSchedule (TargetPtr tApp) (appContainer, []))))
     = [tStorageStruct, tServer, tApp] \<and>
   depsOf (fst (snd (Resolve testSat revSchedule (TargetPtr tApp) (appContainer, [])))) tApp
     = [tServer, tServer] \<and>
   (\<exists>j < 2. callTyp (snd (snd (Resolve testSat revSchedule (TargetPtr tApp) (appContainer, []))) ! j)
        = tServer \<and>
      callArgs (snd (snd (Resolve testSat revSchedule (TargetPtr tApp) (appContainer, []))) ! 2) ! 1
        = callResults (snd (snd (Resolve testSat revSchedule (TargetPtr tApp) (appContainer, []))) ! j) ! 0)"
proof -
  let ?R = "Resolve testSat revSchedule (TargetPtr tApp) (appContainer, [])"
  let ?new = "snd (snd ?R)"
  have r: "reachable testSat appContainer"
    unfolding appContainer_def by (rule reachable_provideAll)
  have w: "snd (snd ?R) = [] @ ?new" by simp
  have types: "map callTyp ?new = [tStorageStruct, tServer, tApp]" by code_simp
  then have "length (map callTyp ?new) = 3" by simp
  then have k: "2 < length ?new" by simp
  have deps: "depsOf (fst (snd ?R)) tApp = [tServer, tServer]" by code_simp
  have ty2: "callTyp (?new ! 2) = tApp" by code_simp
  from C7_inputs_built_before_consumer [OF r valid_revSchedule Resolve_collapse w k]
  have "\<forall>i < length (depsOf (fst (snd ?R)) (callTyp (?new ! 2))).
       \<exists>j < 2. callTyp (?new ! j) = depsOf (fst (snd ?R)) (callTyp (?new ! 2)) ! i \<and>
          \<not> stops testSat (callResults (?new ! j)) \<and>
          lookup (replay testSat (take 2 ?new) (instances appContainer))
              (depsOf (fst (snd ?R)) (callTyp (?new ! 2)) ! i)
            = Some (callResults (?new ! j) ! 0) \<and>
          callArgs (?new ! 2) ! i = callResults (?new ! j) ! 0"
    by blast
  then have "\<exists>j < 2. callTyp (?new ! j) = [tServer, tServer] ! 1 \<and>
      callArgs (?new ! 2) ! 1 = callResults (?new ! j) ! 0"
    unfolding ty2 deps by (metis One_nat_def length_Cons lessI list.size(3) numeral_2_eq_2)
  then have "\<exists>j < 2. callTyp (?new ! j) = tServer \<and>
      callArgs (?new ! 2) ! 1 = callResults (?new ! j) ! 0"
    by simp
  with r valid_revSchedule types deps show ?thesis by blast
qed



text \<open>
  C9. The claim: a producer that returns an error that is not nil as its second output
  makes \<^verbatim>\<open>Resolve\<close> abort and return that error. \<^verbatim>\<open>analyzeFunction\<close> accepts as second
  output any type that implements \<^verbatim>\<open>error\<close>, also one of struct kind, whose values are
  never nil; \<^verbatim>\<open>resolveInstance\<close> then asks \<^verbatim>\<open>lastResult.IsNil()\<close>, which panics on
  a value of a kind that has no nil. With \<^verbatim>\<open>type ValueError struct\<close> implementing
  \<^verbatim>\<open>error\<close> and a producer \<^verbatim>\<open>func() (*Database, ValueError)\<close>, registration succeeds,
  the producer is invoked and returns its error, and \<^verbatim>\<open>Resolve\<close> panics instead of
  returning it.
\<close>

theorem C9_value_kind_failure_panics:
  "fst (Provide valueErrorSat
          (AFunc (failingProducer ''NewErrorDatabase'' [] [tDatabase, tValueError]))
          (NewContainer :: nat Container)) = Ok () \<and>
   valueErrorSat tValueError errorType \<and>
   map callResults (snd (snd (Resolve valueErrorSat idSchedule (TargetPtr tDatabase)
     (valueErrorContainer, [])))) = [[Value tDatabase None, Value tValueError (Some 500)]] \<and>
   fst (Resolve valueErrorSat idSchedule (TargetPtr tDatabase) (valueErrorContainer, []))
     = Panic IsNilOfValueKind"
  by code_simp

text \<open>
  C9, where the nil test returns. If an invocation made during \<^verbatim>\<open>Resolve\<close> signals
  failure (a second result whose type implements \<^verbatim>\<open>error\<close> and on which \<^verbatim>\<open>IsNil\<close>
  reports false: an interface, pointer, map, slice, channel or function value that is
  not nil), it is the last invocation of the call, \<^verbatim>\<open>Resolve\<close> returns that error
  (wrapped with the type being resolved), and the instance cache is left as the earlier
  invocations of the call made it: each of their first results is cached under its
  type, and the entries of all other types are as before the call.
\<close>

theorem C9_producer_failure_aborts:
  assumes "reachable sat c" and "valid_schedule sch"
    and "Resolve sat sch tgt (c, w) = (r, c', w')" and "w' = w @ new"
    and "k < length new" and "signalsFailure sat (callResults (new ! k))"
  shows "Suc k = length new \<and>
    r = Err (FailedToResolve (callTyp (new ! k)) (ProducerError (last (callResults (new ! k))))) \<and>
    (\<forall>j < k. lookup (instances c') (callTyp (new ! j)) = Some (callResults (new ! j) ! 0)) \<and>
    (\<forall>d. d \<notin> callTyp ` set (take k new) \<longrightarrow> lookup (instances c') d = lookup (instances c) d)"
proof -
  from reachable_wf [OF assms(1)] assms(2,3) show ?thesis
  proof (cases rule: Resolve_trace)
    case stopped
    with assms(4,5) show ?thesis by simp
  next
    case (instantiated T c1 sortedTypes new0)
    have n: "new0 = new" using instantiated(8) assms(4) by simp
    note tr = instantiated(10) [unfolded n]
    have st: "stops sat (callResults (new ! k))" using assms(6) by (simp add: stops_def)
    have last: "Suc k = length new" using traceOk_nth(3) [OF tr assms(5) st] .
    have ne: "new \<noteq> []" using assms(5) by auto
    have "last new = new ! (length new - 1)" using ne by (rule last_conv_nth)
    then have lk: "last new = new ! k" using last [symmetric] by simp
    have "\<not> list_all (\<lambda>e. \<not> stops sat (callResults e)) new"
      using assms(5) st by (auto simp: list_all_length)
    moreover have "\<not> crashes sat (callResults (last new))"
      using assms(6) unfolding lk by (simp add: signalsFailure_def crashes_def)
    ultimately
    have r: "r = Err (FailedToResolve (callTyp (new ! k)) (ProducerError (last (callResults (new ! k)))))"
      using instantiated(11) [unfolded n] lk by auto
    have "take (Suc k) new = take k new @ [new ! k]"
      using assms(5) by (rule take_Suc_conv_app_nth)
    then have split: "new = take k new @ [new ! k]" using last by simp
    have "replay sat new (instances c)
        = applyCall sat (new ! k) (replay sat (take k new) (instances c))"
      by (subst split) (simp add: replay_append)
    also have "\<dots> = replay sat (take k new) (instances c)"
      using st by (simp add: applyCall_def)
    finally have inst: "instances c' = replay sat (take k new) (instances c)"
      using instantiated(9) [unfolded n] by simp
    have a: "\<forall>j < k. lookup (instances c') (callTyp (new ! j)) = Some (callResults (new ! j) ! 0)"
      unfolding inst using built_before(1) [OF tr instantiated(5) _ assms(5)] by simp
    have b: "\<forall>d. d \<notin> callTyp ` set (take k new) \<longrightarrow> lookup (instances c') d = lookup (instances c) d"
      unfolding inst by (simp add: replay_lookup_other)
    from last r a b show ?thesis by blast
  qed
qed

theorem C9_witness:
  "reachable testSat failingContainer \<and> valid_schedule idSchedule \<and>
   map callTyp (snd (snd (Resolve testSat idSchedule (TargetPtr tDatabase) (failingContainer, []))))
     = [tDatabase, tCache] \<and>
   signalsFailure testSat
     (callResults (snd (snd (Resolve testSat idSchedule (TargetPtr tDatabase) (failingContainer, []))) ! 1)) \<and>
   fst (Resolve testSat idSchedule (TargetPtr tDatabase) (failingContainer, []))
     = Err (FailedToResolve tCache (ProducerError (Value errorType (Some 500)))) \<and>
   lookup (instances (fst (snd (Resolve testSat idSchedule (TargetPtr tDatabase) (failingContainer, [])))))
       tDatabase
     = Some (Value tDatabase (Some 0))"
proof -
  let ?R = "Resolve testSat idSchedule (TargetPtr tDatabase) (failingContainer, [])"
  let ?new = "snd (snd ?R)"
  have r: "reachable testSat failingContainer"
    unfolding failingContainer_def by (rule reachable_provideAll)
  have w: "snd (snd ?R) = [] @ ?new" by simp
  have types: "map callTyp ?new = [tDatabase, tCache]" by code_simp
  then have "length (map callTyp ?new) = 2" by simp
  then have k: "1 < length ?new" by simp
  have f: "signalsFailure testSat (callResults (?new ! 1))" by code_simp
  have e1: "callTyp (?new ! 1) = tCache" by code_simp
  have e2: "last (callResults (?new ! 1)) = Value errorType (Some 500)" by code_simp
  have e3: "callTyp (?new ! 0) = tDatabase" by code_simp
  have e4: "callResults (?new ! 0) ! 0 = Value tDatabase (Some 0)" by code_simp
  from C9_producer_failure_aborts [OF r valid_idSchedule Resolve_collapse w k f]
  have "fst ?R = Err (FailedToResolve (callTyp (?new ! 1)) (ProducerError (last (callResults (?new ! 1)))))"
    and "\<forall>j < 1. lookup (instances (fst (snd ?R))) (callTyp (?new ! j)) = Some (callResults (?new ! j) ! 0)"
    by blast+
  then have "fst ?R = Err (FailedToResolve tCache (ProducerError (Value errorType (Some 500))))"
    and "lookup (instances (fst (snd ?R))) tDatabase = Some (Value tDatabase (Some 0))"
    unfolding e1 e2 using e3 e4 by auto
  with r valid_idSchedule types f show ?thesis by blast
qed

text \<open>
  C10. After a successful \<^verbatim>\<open>Resolve\<close> the instance cache has an entry for every type
  with a registered constructor, whatever the target was; and if the constructor
  registered for some type signals failure whenever it is called, no \<^verbatim>\<open>Resolve\<close>
  succeeds, whether or not the target depends on that type.
\<close>

theorem C10_all_registered_types_instantiated:
  assumes "reachable sat c" and "valid_schedule sch"
    and "Resolve sat sch tgt (c, w) = (r, c', w')"
  shows "(\<forall>v. r = Ok v \<longrightarrow> (\<forall>t \<in> set (keys (typesCtors c)). lookup (instances c') t \<noteq> None)) \<and>
    ((\<exists>t p. lookup (typesCtors c) t = Some p \<and> alwaysFails sat (fn (constructors c ! p)))
       \<longrightarrow> (\<forall>v. r \<noteq> Ok v))"
proof -
  note wf = reachable_wf [OF assms(1)]
  from wf assms(2,3) show ?thesis
  proof (cases rule: Resolve_trace)
    case stopped
    then show ?thesis by blast
  next
    case (instantiated T c1 sortedTypes new)
    note tr = instantiated(10)
    show ?thesis
    proof (cases "\<exists>v. r = Ok v")
      case False
      then show ?thesis by blast
    next
      case True
      with instantiated(11) have types: "map callTyp new = sortedTypes"
        and good: "list_all (\<lambda>e. \<not> stops sat (callResults e)) new"
        by auto
      have dist: "distinct (map callTyp new)" unfolding types by (rule instantiated(5))
      have inst: "instances c' = replay sat new (instances c)"
        unfolding instantiated(9) by simp
      have ev: "\<exists>k < length new. callTyp (new ! k) = t" if "t \<in> set (keys (typesCtors c))" for t
      proof -
        from that have "t \<in> set (map callTyp new)"
          unfolding types instantiated(6) .
        then show ?thesis by (auto simp: in_set_conv_nth)
      qed
      have a: "lookup (instances c') t \<noteq> None" if t: "t \<in> set (keys (typesCtors c))" for t
      proof -
        from ev [OF t] obtain k where k: "k < length new" "callTyp (new ! k) = t" by blast
        have "\<not> stops sat (callResults (new ! k))"
          using good k(1) by (simp add: list_all_length)
        from replay_lookup_built [OF dist nth_mem [OF k(1)] this traceOk_nth(2) [OF tr k(1)]]
        show ?thesis unfolding inst k(2) by simp
      qed
      have b: "False" if tp: "lookup (typesCtors c) t = Some p"
        and af: "alwaysFails sat (fn (constructors c ! p))" for t p
      proof -
        have "t \<in> set (keys (typesCtors c))" using tp by (rule lookup_Some_keys)
        from ev [OF this] obtain k where k: "k < length new" "callTyp (new ! k) = t" by blast
        note rf = resolveInterfaces_fields [OF instantiated(2)]
        from traceOk_nth(1) [OF tr k(1)]
        have cp: "callCtor (new ! k) = p"
          and res: "callResults (new ! k)
            = CallFn (fn (constructors c1 ! p)) (w @ take k new) (callArgs (new ! k))"
          using tp k(2) rf(1) by (auto simp: validCall_def)
        have "p < length (constructors c)" using wf tp by (simp add: wf_container_def)
        then have "sameShape (constructors c ! p) (constructors c1 ! p)"
          using rf(5) by (simp add: list_all2_nthD)
        then have "fn (constructors c1 ! p) = fn (constructors c ! p)"
          by (simp add: sameShape_def)
        then have "signalsFailure sat (callResults (new ! k))"
          using af res by (simp add: alwaysFails_def)
        then show False using good k(1) by (simp add: list_all_length stops_def)
      qed
      from a b True show ?thesis by blast
    qed
  qed
qed

theorem C10_witness:
  "reachable testSat failingContainer \<and> valid_schedule idSchedule \<and>
   lookup (typesCtors failingContainer) tCache = Some 1 \<and>
   alwaysFails testSat (fn (constructors failingContainer ! 1)) \<and>
   depsOf failingContainer tDatabase = [] \<and>
   (\<forall>v. fst (Resolve testSat idSchedule (TargetPtr tDatabase) (failingContainer, [])) \<noteq> Ok v) \<and>
   reachable testSat appContainer \<and>
   fst (Resolve testSat idSchedule (TargetPtr tApp) (appContainer, [])) = Ok (Value tApp (Some 2)) \<and>
   lookup (instances (fst (snd (Resolve testSat idSchedule (TargetPtr tApp) (appContainer, [])))))
       tStorageStruct \<noteq> None \<and>
   lookup (instances (fst (snd (Resolve testSat idSchedule (TargetPtr tApp) (appContainer, [])))))
       tServer \<noteq> None"
proof -
  let ?R = "Resolve testSat idSchedule (TargetPtr tDatabase) (failingContainer, [])"
  let ?S = "Resolve testSat idSchedule (TargetPtr tApp) (appContainer, [])"
  have r: "reachable testSat failingContainer"
    unfolding failingContainer_def by (rule reachable_provideAll)
  have r': "reachable testSat appContainer"
    unfolding appContainer_def by (rule reachable_provideAll)
  have p: "lookup (typesCtors failingContainer) tCache = Some 1" by code_simp
  have "fn (constructors failingContainer ! 1) = failingProducer ''NewErrorCache'' [] [tCache, errorType]"
    by (simp add: failingContainer_def provideAll_def Provide_def analyzeFunction_def Let_def
        Implements_def errorType_def testSat_def NewContainer_def producer_def failingProducer_def
        tDatabase_def tCache_def tUserService_def)
  then have af: "alwaysFails testSat (fn (constructors failingContainer ! 1))"
    by (simp add: alwaysFails_failingProducer)
  have d: "depsOf failingContainer tDatabase = []" by code_simp
  from C10_all_registered_types_instantiated [OF r valid_idSchedule Resolve_collapse] p af
  have no: "\<forall>v. fst ?R \<noteq> Ok v" by blast
  have ok: "fst ?S = Ok (Value tApp (Some 2))" by code_simp
  have ks: "keys (typesCtors appContainer) = [tApp, tServer, tStorageStruct]" by code_simp
  from C10_all_registered_types_instantiated [OF r' valid_idSchedule Resolve_collapse] ok
  have "\<forall>t \<in> set (keys (typesCtors appContainer)). lookup (instances (fst (snd ?S))) t \<noteq> None"
    by blast
  then have "lookup (instances (fst (snd ?S))) tStorageStruct \<noteq> None"
    and "lookup (instances (fst (snd ?S))) tServer \<noteq> None"
    unfolding ks by simp_all
  with r valid_idSchedule p af d no r' ok show ?thesis by blast
qed

end
